theory Spec2Isabelle
  imports Complex_Main "HOL-Library.Stream"
begin

section \<open>Connect 4: board model\<close>

text \<open>
  The board is a NumPy array of shape \<open>(NUM_COLUMNS, COLUMN_HEIGHT)\<close>; the first index
  is the Connect 4 column, the second the height in that column. It is modelled as the
  list of its columns, each column the list of its cells from the bottom. Cells hold
  \<open>0\<close> (empty), \<open>1\<close> or \<open>-1\<close>; players are the integers \<open>1\<close> and \<open>-1\<close>.
  Functions that mutate the board in place return the updated board.
\<close>

type_synonym board = "int list list"

definition NUM_COLUMNS :: nat where "NUM_COLUMNS = 7"
definition COLUMN_HEIGHT :: nat where "COLUMN_HEIGHT = 6"
definition FOUR :: nat where "FOUR = 4"
definition MAX_ROUNDS :: nat where "MAX_ROUNDS = NUM_COLUMNS * COLUMN_HEIGHT"

datatype error = StopIteration | IndexError | ValueError | ZeroDivisionError | AttributeError

text \<open>The shape of the array, which NumPy fixes at creation.\<close>

definition wf_board :: "board \<Rightarrow> bool" where
  "wf_board b = (length b = NUM_COLUMNS \<and> list_all (\<lambda>col. length col = COLUMN_HEIGHT) b)"

text \<open>Gravity: no cell is occupied while the cell below it in the same column is empty.\<close>

definition gravity_col :: "int list \<Rightarrow> bool" where
  "gravity_col col = list_all (\<lambda>i. col ! i = 0 \<longrightarrow> col ! Suc i = 0) [0..<length col - 1]"

definition gravity :: "board \<Rightarrow> bool" where
  "gravity b = list_all gravity_col b"

definition initialize_board :: board where
  "initialize_board = replicate NUM_COLUMNS (replicate COLUMN_HEIGHT 0)"

definition valid_moves :: "board \<Rightarrow> nat list" where
  "valid_moves b = filter (\<lambda>n. b ! n ! (COLUMN_HEIGHT - 1) = 0) [0..<NUM_COLUMNS]"

text \<open>
  \<open>play\<close> takes the first index of the column whose cell is \<open>0\<close>; \<open>next\<close> on the exhausted
  generator raises \<open>StopIteration\<close>. A column index outside the array raises \<open>IndexError\<close>.
\<close>

definition play :: "board \<Rightarrow> nat \<Rightarrow> int \<Rightarrow> error + board" where
  "play b column player =
     (if column \<ge> length b then Inl IndexError
      else case filter (\<lambda>i. b ! column ! i = 0) [0..<length (b ! column)] of
             [] \<Rightarrow> Inl StopIteration
           | index # _ \<Rightarrow> Inr (b[column := (b ! column)[index := player]]))"

text \<open>
  \<open>take_back\<close> takes the last index of the column whose cell is not \<open>0\<close>; \<open>[-1]\<close> on the
  empty list raises \<open>IndexError\<close>.
\<close>

definition take_back :: "board \<Rightarrow> nat \<Rightarrow> error + board" where
  "take_back b column =
     (if column \<ge> length b then Inl IndexError
      else case filter (\<lambda>i. b ! column ! i \<noteq> 0) [0..<length (b ! column)] of
             [] \<Rightarrow> Inl IndexError
           | is \<Rightarrow> Inr (b[column := (b ! column)[last is := 0]]))"

definition round_number :: "board \<Rightarrow> nat" where
  "round_number b = sum_list (map (\<lambda>col. length (filter (\<lambda>v. v \<noteq> 0) col)) b)"

subsection \<open>Terminal detector\<close>

text \<open>
  The four disjuncts of \<open>four_in_a_row\<close>, in the source's order: four cells of one column,
  four cells of one row, the rising diagonals \<open>(ro + i, co + i)\<close> and the falling
  diagonals \<open>(ro + i, co + FOUR - 1 - i)\<close>.
\<close>

definition four_in_a_row :: "board \<Rightarrow> int \<Rightarrow> bool" where
  "four_in_a_row b player =
     (list_ex (\<lambda>c. list_ex (\<lambda>n. list_all (\<lambda>r. b ! c ! r = player) [n..<n + FOUR])
                      [0..<COLUMN_HEIGHT - FOUR + 1]) [0..<NUM_COLUMNS]
    \<or> list_ex (\<lambda>r. list_ex (\<lambda>n. list_all (\<lambda>c. b ! c ! r = player) [n..<n + FOUR])
                      [0..<NUM_COLUMNS - FOUR + 1]) [0..<COLUMN_HEIGHT]
    \<or> list_ex (\<lambda>ro. list_ex (\<lambda>co. list_all (\<lambda>i. b ! (ro + i) ! (co + i) = player) [0..<FOUR])
                      [0..<COLUMN_HEIGHT - FOUR + 1]) [0..<NUM_COLUMNS - FOUR + 1]
    \<or> list_ex (\<lambda>ro. list_ex (\<lambda>co. list_all (\<lambda>i. b ! (ro + i) ! (co + FOUR - 1 - i) = player) [0..<FOUR])
                      [0..<COLUMN_HEIGHT - FOUR + 1]) [0..<NUM_COLUMNS - FOUR + 1])"

text \<open>\<open>terminal_state\<close> returns \<open>0\<close>, \<open>1\<close>, \<open>-1\<close> or \<open>None\<close>.\<close>

definition terminal_state :: "board \<Rightarrow> int option" where
  "terminal_state b =
     (if round_number b = MAX_ROUNDS then Some 0
      else if four_in_a_row b 1 then Some 1
      else if four_in_a_row b (- 1) then Some (- 1)
      else None)"

subsection \<open>Random source and result type\<close>

text \<open>
  \<open>np.random.choice\<close> draws from NumPy's global generator. The generator is modelled as
  a stream of numbers that is passed along and returned: a draw from \<open>xs\<close> takes the head
  of the stream modulo \<open>length xs\<close> as the position. A draw from an empty list raises
  \<open>ValueError\<close>. Every property below is proved for every stream.

  A loop of the source that may run forever is a partial function: the value \<open>None\<close>
  stands for a call that never returns, \<open>Some (Inl e)\<close> for a raised exception and
  \<open>Some (Inr x)\<close> for a returned value.
\<close>

type_synonym rng = "nat stream"

type_synonym 'a res = "(error + 'a) option"

definition random_choice :: "nat list \<Rightarrow> rng \<Rightarrow> error + (nat \<times> rng)" where
  "random_choice xs g =
     (if xs = [] then Inl ValueError else Inr (xs ! (shd g mod length xs), stl g))"

subsection \<open>Monte Carlo evaluator\<close>

text \<open>
  The loop of \<open>_mc\<close>; \<open>p\<close> is the value of the variable \<open>p\<close> on entry to the loop test.
  The board is the copy that \<open>montecarlo\<close> hands over; it is returned with the result.
\<close>

partial_function (option) mc_loop :: "board \<Rightarrow> int \<Rightarrow> rng \<Rightarrow> (int \<times> board \<times> rng) res" where
  "mc_loop b p g =
     (if valid_moves b \<noteq> [] then
        (case random_choice (valid_moves b) g of
           Inl e \<Rightarrow> Some (Inl e)
         | Inr (c, g') \<Rightarrow>
            (case play b c (- p) of
               Inl e \<Rightarrow> Some (Inl e)
             | Inr b' \<Rightarrow>
                 if four_in_a_row b' (- p) then Some (Inr (- p, b', g'))
                 else mc_loop b' (- p) g'))
      else Some (Inr (0, b, g)))"

text \<open>\<open>mc\<close> is the source's \<open>_mc\<close>, and \<open>mc_samples n\<close> the \<open>n\<close> playouts that \<open>montecarlo\<close> counts.\<close>

definition mc :: "board \<Rightarrow> int \<Rightarrow> rng \<Rightarrow> (int \<times> board \<times> rng) res" where
  "mc b player g = mc_loop b (- player) g"

fun mc_samples :: "nat \<Rightarrow> board \<Rightarrow> int \<Rightarrow> rng \<Rightarrow> (int list \<times> rng) res" where
  "mc_samples 0 b player g = Some (Inr ([], g))"
| "mc_samples (Suc n) b player g =
     (case mc b player g of
        None \<Rightarrow> None
      | Some (Inl e) \<Rightarrow> Some (Inl e)
      | Some (Inr (w, _, g')) \<Rightarrow>
         (case mc_samples n b player g' of
            None \<Rightarrow> None
          | Some (Inl e) \<Rightarrow> Some (Inl e)
          | Some (Inr (ws, g'')) \<Rightarrow> Some (Inr (w # ws, g''))))"

definition montecarlo :: "board \<Rightarrow> int \<Rightarrow> rng \<Rightarrow> (rat \<times> rng) res" where
  "montecarlo b player g =
     (let montecarlo_samples = 100 in
      case mc_samples montecarlo_samples b player g of
        None \<Rightarrow> None
      | Some (Inl e) \<Rightarrow> Some (Inl e)
      | Some (Inr (cnt, g')) \<Rightarrow>
          Some (Inr ((of_nat (count_list cnt 1) - of_nat (count_list cnt (- 1)))
                       / of_nat montecarlo_samples, g')))"

definition eval_board :: "board \<Rightarrow> int \<Rightarrow> rng \<Rightarrow> (rat \<times> rng) res" where
  "eval_board b player g =
     (if four_in_a_row b 1 then Some (Inr (1, g))
      else if four_in_a_row b (- 1) then Some (Inr (- 1, g))
      else montecarlo b player g)"

section \<open>MCTS engine\<close>

text \<open>
  \<open>Node\<close> objects refer to each other through \<open>parent\<close> and \<open>childs\<close> and are updated in
  place, so the search tree is an explicit object store: the list of all nodes created so
  far, a reference being the position of the node in the store. The root is at position 0
  and a new node is appended at the end. Each node keeps its own copy of the board.

  \<open>num_wins\<close> grows by \<open>1\<close> and by \<open>0.5\<close>; it is a rational number here.
\<close>

record node =
  node_board :: board
  node_player :: int
  node_parent :: "nat option"
  node_move :: "nat option"
  num_visits :: nat
  num_wins :: rat
  childs :: "nat list"
  next_moves :: "nat list"

type_synonym tree = "node list"

definition NUM_ITERATIONS :: nat where "NUM_ITERATIONS = 1000"

definition new_node :: "board \<Rightarrow> int \<Rightarrow> nat option \<Rightarrow> nat option \<Rightarrow> node" where
  "new_node b player parent move =
     \<lparr>node_board = b, node_player = player, node_parent = parent, node_move = move,
      num_visits = 0, num_wins = 0, childs = [], next_moves = valid_moves b\<rparr>"

text \<open>
  Python's \<open>max(xs, key=f)\<close>: the key of every element is computed in order, the first
  element with the greatest key is returned, and an empty \<open>xs\<close> raises \<open>ValueError\<close>.
\<close>

fun max_by_loop :: "('a \<Rightarrow> error + 'k::linorder) \<Rightarrow> 'a \<Rightarrow> 'k \<Rightarrow> 'a list \<Rightarrow> error + 'a" where
  "max_by_loop key best kb [] = Inr best"
| "max_by_loop key best kb (x # xs) =
     (case key x of
        Inl e \<Rightarrow> Inl e
      | Inr kx \<Rightarrow> if kx > kb then max_by_loop key x kx xs else max_by_loop key best kb xs)"

definition max_by :: "('a \<Rightarrow> error + 'k::linorder) \<Rightarrow> 'a list \<Rightarrow> error + 'a" where
  "max_by key xs =
     (case xs of
        [] \<Rightarrow> Inl ValueError
      | x # xs' \<Rightarrow> (case key x of Inl e \<Rightarrow> Inl e | Inr kx \<Rightarrow> max_by_loop key x kx xs'))"

text \<open>
  \<open>UCB1\<close> is computed in floating point from the node's \<open>num_wins\<close> and \<open>num_visits\<close> and
  its parent's \<open>num_visits\<close>. The floating-point value
  \<open>num_wins / num_visits + sqrt 2 * sqrt (log parent.num_visits / num_visits)\<close> is the
  parameter \<open>ucb\<close> of the model, so that what is proved holds however it is rounded. The
  Python division \<open>node.num_wins / node.num_visits\<close> raises \<open>ZeroDivisionError\<close> when
  \<open>num_visits\<close> is \<open>0\<close>, and \<open>node.parent.num_visits\<close> raises \<open>AttributeError\<close> when the
  node has no parent.
\<close>

type_synonym ucb = "rat \<Rightarrow> nat \<Rightarrow> nat \<Rightarrow> real"

definition UCB1 :: "ucb \<Rightarrow> tree \<Rightarrow> nat \<Rightarrow> error + real" where
  "UCB1 ucb st i =
     (if num_visits (st ! i) = 0 then Inl ZeroDivisionError
      else case node_parent (st ! i) of
             None \<Rightarrow> Inl AttributeError
           | Some q \<Rightarrow> Inr (ucb (num_wins (st ! i)) (num_visits (st ! i)) (num_visits (st ! q))))"

definition selection :: "ucb \<Rightarrow> tree \<Rightarrow> nat \<Rightarrow> error + nat" where
  "selection ucb st i = max_by (UCB1 ucb st) (childs (st ! i))"

text \<open>
  \<open>expand\<close> returns the store with the new child appended and the reference to the child.
  \<open>list.remove\<close> raises \<open>ValueError\<close> when the move is not in \<open>next_moves\<close>.
\<close>

definition expand :: "tree \<Rightarrow> nat \<Rightarrow> nat \<Rightarrow> error + (tree \<times> nat)" where
  "expand st i move =
     (let player = - node_player (st ! i) in
      case play (node_board (st ! i)) move player of
        Inl e \<Rightarrow> Inl e
      | Inr new_board \<Rightarrow>
          if move \<notin> set (next_moves (st ! i)) then Inl ValueError
          else
            let st1 = st[i := (st ! i)\<lparr>next_moves := remove1 move (next_moves (st ! i))\<rparr>];
                child = length st1;
                st2 = st1 @ [new_node new_board player (Some i) (Some move)];
                st3 = st2[i := (st2 ! i)\<lparr>childs := childs (st2 ! i) @ [child]\<rparr>]
            in Inr (st3, child))"

partial_function (option) simulate_loop :: "board \<Rightarrow> int \<Rightarrow> rng \<Rightarrow> (int \<times> rng) res" where
  "simulate_loop b p g =
     (if valid_moves b \<noteq> [] then
        (case random_choice (valid_moves b) g of
           Inl e \<Rightarrow> Some (Inl e)
         | Inr (move, g') \<Rightarrow>
            (case play b move p of
               Inl e \<Rightarrow> Some (Inl e)
             | Inr b' \<Rightarrow>
                 if four_in_a_row b' p then Some (Inr (p, g'))
                 else simulate_loop b' (- p) g'))
      else Some (Inr (0, g)))"

definition simulate :: "tree \<Rightarrow> nat \<Rightarrow> rng \<Rightarrow> (int \<times> rng) res" where
  "simulate st i g = simulate_loop (node_board (st ! i)) (- node_player (st ! i)) g"

text \<open>The loop of \<open>backpropagate\<close>; \<open>nd\<close> is the variable \<open>node\<close>, \<open>None\<close> past the root.\<close>

partial_function (option) backpropagate :: "tree \<Rightarrow> nat option \<Rightarrow> int \<Rightarrow> tree option" where
  "backpropagate st nd winner =
     (case nd of
        None \<Rightarrow> Some st
      | Some i \<Rightarrow>
          let n = st ! i;
              n1 = (if winner = 0 then n\<lparr>num_wins := num_wins n + 1 / 2\<rparr>
                    else if winner = node_player n then n\<lparr>num_wins := num_wins n + 1\<rparr>
                    else n);
              n2 = n1\<lparr>num_visits := num_visits n1 + 1\<rparr>
          in backpropagate (st[i := n2]) (node_parent n2) winner)"

text \<open>The selection loop of \<open>MCTS\<close>: the tree traversal from \<open>node\<close>.\<close>

partial_function (option) descend :: "ucb \<Rightarrow> tree \<Rightarrow> nat \<Rightarrow> nat res" where
  "descend ucb st i =
     (if length (childs (st ! i)) \<noteq> 0 \<and> length (next_moves (st ! i)) = 0 then
        (case selection ucb st i of
           Inl e \<Rightarrow> Some (Inl e)
         | Inr j \<Rightarrow> descend ucb st j)
      else Some (Inr i))"

text \<open>The expansion step of one iteration.\<close>

definition expansion :: "tree \<Rightarrow> nat \<Rightarrow> rng \<Rightarrow> error + (tree \<times> nat \<times> rng)" where
  "expansion st i g =
     (if length (next_moves (st ! i)) > 0 then
        (case random_choice (next_moves (st ! i)) g of
           Inl e \<Rightarrow> Inl e
         | Inr (move, g') \<Rightarrow>
            (case expand st i move of
               Inl e \<Rightarrow> Inl e
             | Inr (st', j) \<Rightarrow> Inr (st', j, g')))
      else Inr (st, i, g))"

text \<open>The simulation step: the terminal state of the node's board, or a rollout.\<close>

definition rollout :: "tree \<Rightarrow> nat \<Rightarrow> rng \<Rightarrow> (int \<times> rng) res" where
  "rollout st i g =
     (case terminal_state (node_board (st ! i)) of
        Some winner \<Rightarrow> Some (Inr (winner, g))
      | None \<Rightarrow> simulate st i g)"

text \<open>One pass of the loop body of \<open>MCTS\<close>, from the root at position 0.\<close>

definition mcts_iteration :: "ucb \<Rightarrow> tree \<Rightarrow> rng \<Rightarrow> (tree \<times> rng) res" where
  "mcts_iteration ucb st g =
     (case descend ucb st 0 of
        None \<Rightarrow> None
      | Some (Inl e) \<Rightarrow> Some (Inl e)
      | Some (Inr i) \<Rightarrow>
         (case expansion st i g of
            Inl e \<Rightarrow> Some (Inl e)
          | Inr (st1, j, g1) \<Rightarrow>
             (case rollout st1 j g1 of
                None \<Rightarrow> None
              | Some (Inl e) \<Rightarrow> Some (Inl e)
              | Some (Inr (winner, g2)) \<Rightarrow>
                 (case backpropagate st1 (Some j) winner of
                    None \<Rightarrow> None
                  | Some st2 \<Rightarrow> Some (Inr (st2, g2))))))"

fun mcts_loop :: "ucb \<Rightarrow> nat \<Rightarrow> tree \<Rightarrow> rng \<Rightarrow> (tree \<times> rng) res" where
  "mcts_loop ucb 0 st g = Some (Inr (st, g))"
| "mcts_loop ucb (Suc n) st g =
     (case mcts_iteration ucb st g of
        None \<Rightarrow> None
      | Some (Inl e) \<Rightarrow> Some (Inl e)
      | Some (Inr (st', g')) \<Rightarrow> mcts_loop ucb n st' g')"

definition win_rate :: "tree \<Rightarrow> nat \<Rightarrow> error + rat" where
  "win_rate st i =
     (if num_visits (st ! i) = 0 then Inl ZeroDivisionError
      else Inr (num_wins (st ! i) / of_nat (num_visits (st ! i))))"

definition MCTS :: "ucb \<Rightarrow> board \<Rightarrow> int \<Rightarrow> nat \<Rightarrow> rng \<Rightarrow> (nat option \<times> rng) res" where
  "MCTS ucb b player num_iterations g =
     (case mcts_loop ucb num_iterations [new_node b (- player) None None] g of
        None \<Rightarrow> None
      | Some (Inl e) \<Rightarrow> Some (Inl e)
      | Some (Inr (st, g')) \<Rightarrow>
         (case max_by (win_rate st) (childs (st ! 0)) of
            Inl e \<Rightarrow> Some (Inl e)
          | Inr best_node \<Rightarrow> Some (Inr (node_move (st ! best_node), g'))))"

section \<open>Alpha-beta minimax engine\<close>

definition MAX_DEPTH :: int where "MAX_DEPTH = 3"
definition MC_ITERATIONS :: nat where "MC_ITERATIONS = 20"
definition SEARCH_ORDER :: "nat list" where "SEARCH_ORDER = [3, 2, 4, 1, 5, 0, 6]"

text \<open>The truth value of \<open>score\<close> in \<open>if score:\<close>: \<open>None\<close> and \<open>0\<close> are false.\<close>

definition truthy :: "int option \<Rightarrow> bool" where
  "truthy score = (case score of None \<Rightarrow> False | Some s \<Rightarrow> s \<noteq> 0)"

text \<open>
  The loop of \<open>can_win_next_move\<close> over \<open>moves\<close>. The board is the caller's array, played on
  and taken back in place; it is returned with the result.
\<close>

fun can_win_loop :: "board \<Rightarrow> int \<Rightarrow> nat list \<Rightarrow> int \<Rightarrow> error + ((int option \<times> nat option) \<times> board)" where
  "can_win_loop b player [] round_num = Inr ((None, None), b)"
| "can_win_loop b player (m # moves) round_num =
     (case play b m player of
        Inl e \<Rightarrow> Inl e
      | Inr b1 \<Rightarrow>
          let score = (if four_in_a_row b1 player
                       then Some ((int MAX_ROUNDS - (round_num - 1)) div 2) else None)
          in (case take_back b1 m of
                Inl e \<Rightarrow> Inl e
              | Inr b2 \<Rightarrow>
                  if truthy score then Inr ((score, Some m), b2)
                  else can_win_loop b2 player moves round_num))"

definition can_win_next_move ::
  "board \<Rightarrow> int \<Rightarrow> nat list option \<Rightarrow> int option \<Rightarrow> error + ((int option \<times> nat option) \<times> board)" where
  "can_win_next_move b player moves round_num =
     can_win_loop b player
       (case moves of None \<Rightarrow> valid_moves b | Some ms \<Rightarrow> ms)
       (case round_num of None \<Rightarrow> int (round_number b) | Some r \<Rightarrow> r)"

text \<open>The \<open>while True\<close> loop of \<open>mc_simulation\<close>, on its own copy \<open>tmp_board\<close>.\<close>

partial_function (option) mc_playout ::
  "board \<Rightarrow> int \<Rightarrow> nat \<Rightarrow> int \<Rightarrow> rng \<Rightarrow> (int \<times> rng) res" where
  "mc_playout tmp_board tmp_player tmp_move player g =
     (case play tmp_board tmp_move tmp_player of
        Inl e \<Rightarrow> Some (Inl e)
      | Inr b' \<Rightarrow>
          if round_number b' = MAX_ROUNDS then Some (Inr (0, g))
          else if four_in_a_row b' tmp_player then
            (if tmp_player = player
             then Some (Inr ((int MAX_ROUNDS - (int (round_number b') - 1)) div 2, g))
             else Some (Inr (- ((int MAX_ROUNDS - (int (round_number b') - 1)) div 2), g)))
          else
            (case random_choice (valid_moves b') g of
               Inl e \<Rightarrow> Some (Inl e)
             | Inr (move, g') \<Rightarrow> mc_playout b' (- tmp_player) move player g'))"

fun mc_simulation_loop ::
  "nat \<Rightarrow> board \<Rightarrow> int \<Rightarrow> int \<Rightarrow> nat option \<Rightarrow> rng \<Rightarrow> ((int \<times> nat option) \<times> rng) res" where
  "mc_simulation_loop 0 b player best_score best_move g = Some (Inr ((best_score, best_move), g))"
| "mc_simulation_loop (Suc n) b player best_score best_move g =
     (case random_choice (valid_moves b) g of
        Inl e \<Rightarrow> Some (Inl e)
      | Inr (move, g1) \<Rightarrow>
         (case mc_playout b player move player g1 of
            None \<Rightarrow> None
          | Some (Inl e) \<Rightarrow> Some (Inl e)
          | Some (Inr (score, g2)) \<Rightarrow>
              if score > best_score then mc_simulation_loop n b player score (Some move) g2
              else mc_simulation_loop n b player best_score best_move g2))"

definition mc_simulation :: "board \<Rightarrow> int \<Rightarrow> rng \<Rightarrow> ((int \<times> nat option) \<times> rng) res" where
  "mc_simulation b player g = mc_simulation_loop MC_ITERATIONS b player (- int MAX_ROUNDS) None g"

text \<open>
  \<open>minimax\<close> and the loop over \<open>SEARCH_ORDER\<close> in its body. The board is the caller's
  array and is returned with the result. The recursive call leaves \<open>max_depth\<close> out, so
  that it takes the default \<open>MAX_DEPTH\<close>.
\<close>

function minimax ::
    "board \<Rightarrow> int \<Rightarrow> int \<Rightarrow> int \<Rightarrow> int \<Rightarrow> int \<Rightarrow> rng \<Rightarrow> ((int \<times> nat option) \<times> board \<times> rng) res"
  and minimax_loop ::
    "nat list \<Rightarrow> nat list \<Rightarrow> board \<Rightarrow> int \<Rightarrow> int \<Rightarrow> int \<Rightarrow> int \<Rightarrow> nat option \<Rightarrow> rng
       \<Rightarrow> ((int \<times> nat option) \<times> board \<times> rng) res" where
  "minimax b player depth alpha beta max_depth g =
     (let round_num = round_number b in
      if round_num = MAX_ROUNDS then Some (Inr ((0, None), b, g))
      else
        let moves = valid_moves b in
        (case can_win_next_move b player (Some moves) (Some (int round_num)) of
           Inl e \<Rightarrow> Some (Inl e)
         | Inr ((score, m), b1) \<Rightarrow>
             if truthy score then Some (Inr ((the score, m), b1, g))
             else
               let max_score = (int MAX_ROUNDS - (int round_num + 1)) div 2;
                   beta' = (if beta > max_score then max_score else beta)
               in if alpha \<ge> beta' then Some (Inr ((beta', None), b1, g))
                  else if depth > max_depth then
                    (case mc_simulation b1 player g of
                       None \<Rightarrow> None
                     | Some (Inl e) \<Rightarrow> Some (Inl e)
                     | Some (Inr (r, g')) \<Rightarrow> Some (Inr (r, b1, g')))
                  else minimax_loop SEARCH_ORDER moves b1 player depth alpha beta' None g))"
| "minimax_loop [] moves b player depth alpha beta best_move g =
     Some (Inr ((alpha, best_move), b, g))"
| "minimax_loop (m # order) moves b player depth alpha beta best_move g =
     (if m \<in> set moves then
        (case play b m player of
           Inl e \<Rightarrow> Some (Inl e)
         | Inr b1 \<Rightarrow>
            (case minimax b1 (- player) (depth + 1) (- beta) (- alpha) MAX_DEPTH g of
               None \<Rightarrow> None
             | Some (Inl e) \<Rightarrow> Some (Inl e)
             | Some (Inr ((s, _), b2, g1)) \<Rightarrow>
                 let score = - s in
                 (case take_back b2 m of
                    Inl e \<Rightarrow> Some (Inl e)
                  | Inr b3 \<Rightarrow>
                      if score \<ge> beta then Some (Inr ((score, Some m), b3, g1))
                      else if score > alpha
                      then minimax_loop order moves b3 player depth score beta (Some m) g1
                      else minimax_loop order moves b3 player depth alpha beta best_move g1)))
      else minimax_loop order moves b player depth alpha beta best_move g)"
  by pat_completeness auto
termination
  by (relation "measures
        [\<lambda>x. case x of
                Inl (b, player, depth, alpha, beta, max_depth, g) \<Rightarrow>
                  (if depth \<le> max_depth then 2 * nat (4 - depth) + 2 else 0)
              | Inr (order, moves, b, player, depth, alpha, beta, best_move, g) \<Rightarrow>
                  2 * nat (4 - depth) + 1,
         \<lambda>x. case x of
                Inl _ \<Rightarrow> 0
              | Inr (order, moves, b, player, depth, alpha, beta, best_move, g) \<Rightarrow> length order]")
     (auto simp: MAX_DEPTH_def)

section \<open>Move selector\<close>

text \<open>\<open>choose_move\<close> returns the move (or \<open>None\<close>) and the caller's board as it leaves it.\<close>

definition choose_move ::
  "ucb \<Rightarrow> board \<Rightarrow> int \<Rightarrow> int \<Rightarrow> rng \<Rightarrow> (nat option \<times> board \<times> rng) res" where
  "choose_move ucb b player v g =
     (if \<not> list_ex (list_ex (\<lambda>x. x \<noteq> 0)) b \<or> round_number b = 1 then
        (case play b 3 player of
           Inl e \<Rightarrow> Some (Inl e)
         | Inr b' \<Rightarrow> Some (Inr (Some 3, b', g)))
      else if round_number b = 2 then
        (case random_choice [2, 3, 4] g of
           Inl e \<Rightarrow> Some (Inl e)
         | Inr (move, g') \<Rightarrow>
            (case play b move player of
               Inl e \<Rightarrow> Some (Inl e)
             | Inr b' \<Rightarrow> Some (Inr (Some move, b', g'))))
      else
        (case (if v = 1 then
                 (case MCTS ucb b player NUM_ITERATIONS g of
                    None \<Rightarrow> None
                  | Some (Inl e) \<Rightarrow> Some (Inl e)
                  | Some (Inr (move, g')) \<Rightarrow> Some (Inr (move, b, g')))
               else
                 (case minimax b player 1 (- 1000) 1000 MAX_DEPTH g of
                    None \<Rightarrow> None
                  | Some (Inl e) \<Rightarrow> Some (Inl e)
                  | Some (Inr ((_, move), b', g')) \<Rightarrow> Some (Inr (move, b', g')))) of
           None \<Rightarrow> None
         | Some (Inl e) \<Rightarrow> Some (Inl e)
         | Some (Inr (None, b', g')) \<Rightarrow> Some (Inr (None, b', g'))
         | Some (Inr (Some move, b', g')) \<Rightarrow>
            (case play b' move player of
               Inl e \<Rightarrow> Some (Inl e)
             | Inr b'' \<Rightarrow> Some (Inr (Some move, b'', g')))))"


section \<open>Positions used in the examples\<close>

text \<open>
  A full board on which only player \<open>-1\<close> has a line of four. It is the end of a game in
  which the players alternate, player \<open>1\<close> first, no line exists after 41 moves, and the
  last disc, dropped by player \<open>-1\<close> in column 5, completes the line.
\<close>

definition won_full_board :: board where
  "won_full_board =
     [[1, -1, -1, 1, -1, -1], [1, 1, -1, 1, 1, -1], [-1, -1, -1, 1, 1, 1], [1, 1, 1, -1, 1, 1],
      [1, -1, 1, -1, -1, 1], [-1, 1, -1, 1, -1, -1], [-1, 1, -1, -1, -1, 1]]"

text \<open>A full board with no line of four for either player.\<close>

definition drawn_full_board :: board where
  "drawn_full_board =
     [[1, -1, 1, -1, 1, -1], [1, -1, 1, -1, 1, -1], [-1, 1, -1, 1, -1, 1], [-1, 1, -1, 1, -1, 1],
      [1, -1, 1, -1, 1, -1], [1, -1, 1, -1, 1, -1], [-1, 1, -1, 1, -1, 1]]"

text \<open>A board on which either player completes a column of four with one more disc.\<close>

definition three_board :: board where
  "three_board =
     [[1, 1, 1, 0, 0, 0], [-1, -1, -1, 0, 0, 0], [0, 0, 0, 0, 0, 0], [0, 0, 0, 0, 0, 0],
      [0, 0, 0, 0, 0, 0], [0, 0, 0, 0, 0, 0], [0, 0, 0, 0, 0, 0]]"

text \<open>\<open>player\<close> completes a line of four by dropping a disc in column \<open>m\<close>.\<close>

definition wins_with :: "board \<Rightarrow> int \<Rightarrow> nat \<Rightarrow> bool" where
  "wins_with b player m =
     (case play b m player of Inl e \<Rightarrow> False | Inr b' \<Rightarrow> four_in_a_row b' player)"

text \<open>The position before the last move of that game: column 5 is the only legal move.\<close>

definition last_move_board :: board where
  "last_move_board = won_full_board[5 := [-1, 1, -1, 1, -1, 0]]"

text \<open>
  The first ply of the playout \<open>mc b player g\<close> is made by \<open>q\<close>: the playout draws a
  column, drops a disc of \<open>q\<close> there, returns \<open>q\<close> if that completes a line and otherwise
  goes on from the new board with \<open>q\<close> as the player who moved last.
\<close>

definition first_ply_by :: "board \<Rightarrow> int \<Rightarrow> rng \<Rightarrow> int \<Rightarrow> bool" where
  "first_ply_by b player g q =
     (case random_choice (valid_moves b) g of
        Inl e \<Rightarrow> False
      | Inr (c, g') \<Rightarrow>
         (case play b c q of
            Inl e \<Rightarrow> False
          | Inr b' \<Rightarrow>
              mc b player g =
                (if four_in_a_row b' q then Some (Inr (q, b', g')) else mc_loop b' q g')))"

text \<open>The position after the first two moves in the centre column.\<close>

definition opening_board :: board where
  "opening_board =
     [[0, 0, 0, 0, 0, 0], [0, 0, 0, 0, 0, 0], [0, 0, 0, 0, 0, 0], [1, - 1, 0, 0, 0, 0],
      [0, 0, 0, 0, 0, 0], [0, 0, 0, 0, 0, 0], [0, 0, 0, 0, 0, 0]]"


section \<open>Invariants of the search tree\<close>

text \<open>
  The invariant of the node at position \<open>i\<close> of the store: its board has the shape of a
  board, its player is \<open>1\<close> or \<open>-1\<close>, its untried moves are legal moves of its board (all
  of them while it has no child), its children are later nodes of the store that point
  back to it and were reached by a legal move of its board, its parent is an earlier node,
  and \<open>0 <= num_wins <= num_visits\<close>.
\<close>

definition node_ok :: "tree \<Rightarrow> nat \<Rightarrow> bool" where
  "node_ok st i =
     (wf_board (node_board (st ! i))
    \<and> (node_player (st ! i) = 1 \<or> node_player (st ! i) = - 1)
    \<and> set (next_moves (st ! i)) \<subseteq> set (valid_moves (node_board (st ! i)))
    \<and> (childs (st ! i) = [] \<longrightarrow> next_moves (st ! i) = valid_moves (node_board (st ! i)))
    \<and> (\<forall>c\<in>set (childs (st ! i)).
          i < c \<and> c < length st \<and> node_parent (st ! c) = Some i
          \<and> (\<exists>m\<in>set (valid_moves (node_board (st ! i))). node_move (st ! c) = Some m))
    \<and> (\<forall>q. node_parent (st ! i) = Some q \<longrightarrow> q < i)
    \<and> 0 \<le> num_wins (st ! i) \<and> num_wins (st ! i) \<le> of_nat (num_visits (st ! i)))"

definition tree_ok :: "tree \<Rightarrow> bool" where
  "tree_ok st = (st \<noteq> [] \<and> (\<forall>i<length st. node_ok st i))"

text \<open>Every node but the root has been visited: it was backpropagated from when created.\<close>

definition visited :: "tree \<Rightarrow> bool" where
  "visited st = (\<forall>i<length st. 0 < i \<longrightarrow> 1 \<le> num_visits (st ! i))"

text \<open>
  What a backpropagation pass may do to a node: only \<open>num_visits\<close> and \<open>num_wins\<close> change,
  \<open>num_visits\<close> does not decrease and \<open>0 <= num_wins <= num_visits\<close> is kept.
\<close>

definition stat_step :: "node \<Rightarrow> node \<Rightarrow> bool" where
  "stat_step n n' =
     (\<exists>v w. n' = n\<lparr>num_visits := v, num_wins := w\<rparr> \<and> num_visits n \<le> v
         \<and> (0 \<le> num_wins n \<and> num_wins n \<le> of_nat (num_visits n) \<longrightarrow> 0 \<le> w \<and> w \<le> of_nat v))"


section \<open>The board operations\<close>

lemma gravity_col_zero_above:
  assumes "gravity_col col" "col ! i = 0" "i \<le> j" "j < length col"
  shows "col ! j = 0"
  using assms(3,4)
proof (induction j)
  case 0
  then show ?case using assms(2) by simp
next
  case (Suc j)
  show ?case
  proof (cases "i = Suc j")
    case True
    then show ?thesis using assms(2) by simp
  next
    case False
    then have "col ! j = 0" using Suc by simp
    moreover have "j < length col - 1" using Suc.prems by simp
    ultimately show ?thesis using assms(1)
      by (simp add: gravity_col_def list_all_iff)
  qed
qed

lemma filter_upt_Cons_least:
  assumes "filter P [0..<n] = i # rest"
  shows "P i \<and> i < n \<and> (\<forall>j<i. \<not> P j)"
proof -
  from assms obtain us vs where uv: "[0..<n] = us @ i # vs" "\<forall>u\<in>set us. \<not> P u" "P i"
    by (auto simp: filter_eq_Cons_iff)
  have len: "length us < n" using arg_cong[OF uv(1), of length] by simp
  have "i = [0..<n] ! length us" using uv(1) by (metis nth_append_length)
  then have i: "i = length us" using len by simp
  have "\<forall>j<i. \<not> P j"
  proof (intro allI impI)
    fix j assume "j < i"
    then have "us ! j = [0..<n] ! j" using uv(1) i by (simp add: nth_append)
    also have "\<dots> = j" using \<open>j < i\<close> i len by simp
    finally have "j \<in> set us" using \<open>j < i\<close> i by (metis nth_mem)
    then show "\<not> P j" using uv(2) by blast
  qed
  then show ?thesis using uv(3) i len by simp
qed

lemma last_filter_upt:
  assumes "P i" "i < n" "\<forall>j. i < j \<and> j < n \<longrightarrow> \<not> P j"
  shows "filter P [0..<n] \<noteq> [] \<and> last (filter P [0..<n]) = i"
proof -
  have split: "[0..<n] = [0..<i] @ [i] @ [Suc i..<n]"
    using assms(2) upt_add_eq_append[of 0 i "n - i"] by (simp add: upt_conv_Cons)
  have "filter P [Suc i..<n] = []" using assms(3) by (auto simp: filter_empty_conv)
  then have "filter P [0..<n] = filter P [0..<i] @ [i]"
    using assms(1) by (subst split) simp
  then show ?thesis by simp
qed

lemma play_take_back:
  assumes g: "gravity b" and c: "c < length b" and z: "0 \<in> set (b ! c)" and p: "player \<noteq> 0"
  shows "\<exists>b'. play b c player = Inr b' \<and> take_back b' c = Inr b"
proof -
  let ?col = "b ! c"
  let ?n = "length ?col"
  have "filter (\<lambda>i. ?col ! i = 0) [0..<?n] \<noteq> []"
    using z by (auto simp: filter_empty_conv in_set_conv_nth)
  then obtain i rest where f: "filter (\<lambda>i. ?col ! i = 0) [0..<?n] = i # rest"
    by (cases "filter (\<lambda>i. ?col ! i = 0) [0..<?n]") auto
  from filter_upt_Cons_least[OF f] have i: "?col ! i = 0" "i < ?n" "\<forall>j<i. ?col ! j \<noteq> 0"
    by auto
  let ?col' = "?col[i := player]"
  let ?b' = "b[c := ?col']"
  have pl: "play b c player = Inr ?b'" using c f by (simp add: play_def)
  have gc: "gravity_col ?col" using g c by (simp add: gravity_def list_all_iff)
  have above: "\<forall>j. i < j \<and> j < ?n \<longrightarrow> \<not> (?col' ! j \<noteq> 0)"
    using gravity_col_zero_above[OF gc i(1)] by auto
  have "?col' ! i \<noteq> 0" using p i(2) by simp
  from last_filter_upt[of "\<lambda>j. ?col' ! j \<noteq> 0" i ?n, OF this i(2) above]
  have l: "filter (\<lambda>j. ?col' ! j \<noteq> 0) [0..<?n] \<noteq> []" "last (filter (\<lambda>j. ?col' ! j \<noteq> 0) [0..<?n]) = i"
    by auto
  have "?col'[i := 0] = ?col" using i(1) by (metis list_update_id list_update_overwrite)
  moreover obtain x xs where "filter (\<lambda>j. ?col' ! j \<noteq> 0) [0..<?n] = x # xs"
    using l(1) by (cases "filter (\<lambda>j. ?col' ! j \<noteq> 0) [0..<?n]") auto
  ultimately have "take_back ?b' c = Inr b"
    using c l(2) by (simp add: take_back_def)
  with pl show ?thesis by blast
qed

lemma play_InrD:
  assumes "play b c p = Inr b'"
  shows "c < length b \<and> (\<exists>i. i < length (b ! c) \<and> b ! c ! i = 0 \<and> (\<forall>j<i. b ! c ! j \<noteq> 0)
            \<and> b' = b[c := (b ! c)[i := p]])"
proof -
  have c: "c < length b" using assms by (auto simp: play_def split: if_splits)
  then obtain i rest where f: "filter (\<lambda>i. b ! c ! i = 0) [0..<length (b ! c)] = i # rest"
    and b': "b' = b[c := (b ! c)[i := p]]"
    using assms by (auto simp: play_def split: list.splits)
  from filter_upt_Cons_least[OF f] b' c show ?thesis by blast
qed

lemma play_succeeds:
  assumes "c < length b" "0 \<in> set (b ! c)"
  shows "\<exists>b'. play b c p = Inr b'"
proof -
  have "filter (\<lambda>i. b ! c ! i = 0) [0..<length (b ! c)] \<noteq> []"
    using assms(2) by (auto simp: filter_empty_conv in_set_conv_nth)
  then show ?thesis using assms(1) by (auto simp: play_def split: list.splits)
qed

lemma valid_moves_iff:
  "m \<in> set (valid_moves b) \<longleftrightarrow> m < NUM_COLUMNS \<and> b ! m ! (COLUMN_HEIGHT - 1) = 0"
  by (auto simp: valid_moves_def)

lemma wf_board_col: "wf_board b \<Longrightarrow> c < NUM_COLUMNS \<Longrightarrow> length (b ! c) = COLUMN_HEIGHT"
  by (simp add: wf_board_def list_all_length)

lemma valid_move_has_zero:
  assumes "wf_board b" "m \<in> set (valid_moves b)"
  shows "m < length b \<and> 0 \<in> set (b ! m)"
proof -
  have m: "m < NUM_COLUMNS" "b ! m ! (COLUMN_HEIGHT - 1) = 0" using assms(2) by (auto simp: valid_moves_iff)
  have "length (b ! m) = COLUMN_HEIGHT" using wf_board_col[OF assms(1) m(1)] .
  then have "COLUMN_HEIGHT - 1 < length (b ! m)" by (simp add: COLUMN_HEIGHT_def)
  then have "b ! m ! (COLUMN_HEIGHT - 1) \<in> set (b ! m)" by (rule nth_mem)
  then show ?thesis using m assms(1) by (simp add: wf_board_def)
qed

lemma valid_move_play:
  "wf_board b \<Longrightarrow> m \<in> set (valid_moves b) \<Longrightarrow> \<exists>b'. play b m p = Inr b'"
  using valid_move_has_zero play_succeeds by blast

lemma wf_board_play:
  assumes "wf_board b" "play b c p = Inr b'"
  shows "wf_board b'"
proof -
  from play_InrD[OF assms(2)] obtain i where c: "c < length b" and b': "b' = b[c := (b ! c)[i := p]]"
    by blast
  have "list_all (\<lambda>col. length col = COLUMN_HEIGHT) b'"
    unfolding list_all_length
  proof (intro allI impI)
    fix n assume "n < length b'"
    then show "length (b' ! n) = COLUMN_HEIGHT"
      using assms(1) b' c by (cases "n = c") (auto simp: wf_board_def list_all_length)
  qed
  then show ?thesis using assms(1) b' by (simp add: wf_board_def)
qed

lemma gravity_col_iff:
  "gravity_col col \<longleftrightarrow> (\<forall>i. Suc i < length col \<longrightarrow> col ! i = 0 \<longrightarrow> col ! Suc i = 0)"
  by (auto simp: gravity_col_def list_all_iff)

lemma gravity_play:
  assumes "gravity b" "play b c p = Inr b'"
  shows "gravity b'"
proof -
  from play_InrD[OF assms(2)] obtain i where c: "c < length b" and i: "i < length (b ! c)"
    "b ! c ! i = 0" "\<forall>j<i. b ! c ! j \<noteq> 0" and b': "b' = b[c := (b ! c)[i := p]]"
    by blast
  have gc: "gravity_col (b ! c)" using assms(1) c by (simp add: gravity_def list_all_length)
  have "gravity_col ((b ! c)[i := p])"
    unfolding gravity_col_iff
  proof (intro allI impI)
    fix k assume k: "Suc k < length ((b ! c)[i := p])" and z: "(b ! c)[i := p] ! k = 0"
    show "(b ! c)[i := p] ! Suc k = 0"
    proof (cases "k = i")
      case True
      then have "p = 0" using z i(1) by simp
      moreover have "b ! c ! Suc k = 0" using gc k True i(2) by (simp add: gravity_col_iff)
      ultimately show ?thesis using k True by (simp add: nth_list_update)
    next
      case False
      then have kz: "b ! c ! k = 0" using z by simp
      then have "\<not> k < i" using i(3) by blast
      then have "Suc k \<noteq> i" by simp
      moreover have "b ! c ! Suc k = 0" using gc k kz by (simp add: gravity_col_iff)
      ultimately show ?thesis by simp
    qed
  qed
  then show ?thesis using assms(1) b' c
    by (auto simp: gravity_def list_all_length nth_list_update)
qed

lemma count_nonzero_update:
  assumes "i < length col" "col ! i = 0" "p \<noteq> (0::int)"
  shows "length (filter (\<lambda>v. v \<noteq> 0) (col[i := p])) = Suc (length (filter (\<lambda>v. v \<noteq> 0) col))"
proof -
  have 1: "col = take i col @ col ! i # drop (Suc i) col" using assms(1) by (rule id_take_nth_drop)
  have 2: "col[i := p] = take i col @ p # drop (Suc i) col" using assms(1) by (rule upd_conv_take_nth_drop)
  have "length (filter (\<lambda>v. v \<noteq> 0) col) =
        length (filter (\<lambda>v. v \<noteq> 0) (take i col)) + length (filter (\<lambda>v. v \<noteq> 0) (drop (Suc i) col))"
    by (subst 1) (simp add: assms(2))
  moreover have "length (filter (\<lambda>v. v \<noteq> 0) (col[i := p])) =
        Suc (length (filter (\<lambda>v. v \<noteq> 0) (take i col)) + length (filter (\<lambda>v. v \<noteq> 0) (drop (Suc i) col)))"
    by (subst 2) (simp add: assms(3))
  ultimately show ?thesis by simp
qed

lemma sum_list_map_update:
  fixes f :: "'a \<Rightarrow> nat"
  assumes "c < length xs"
  shows "sum_list (map f (xs[c := y])) + f (xs ! c) = sum_list (map f xs) + f y"
proof -
  have 1: "xs = take c xs @ xs ! c # drop (Suc c) xs" using assms by (rule id_take_nth_drop)
  have 2: "xs[c := y] = take c xs @ y # drop (Suc c) xs" using assms by (rule upd_conv_take_nth_drop)
  have "sum_list (map f xs) = sum_list (map f (take c xs)) + f (xs ! c) + sum_list (map f (drop (Suc c) xs))"
    by (subst 1) simp
  moreover have "sum_list (map f (xs[c := y])) = sum_list (map f (take c xs)) + f y + sum_list (map f (drop (Suc c) xs))"
    by (subst 2) simp
  ultimately show ?thesis by simp
qed

lemma round_number_play:
  assumes "play b c p = Inr b'" "p \<noteq> 0"
  shows "round_number b' = Suc (round_number b)"
proof -
  from play_InrD[OF assms(1)] obtain i where c: "c < length b" and i: "i < length (b ! c)"
    "b ! c ! i = 0" and b': "b' = b[c := (b ! c)[i := p]]"
    by blast
  show ?thesis
    using sum_list_map_update[OF c, of "\<lambda>col. length (filter (\<lambda>v. v \<noteq> 0) col)" "(b ! c)[i := p]"]
      count_nonzero_update[OF i assms(2)]
    by (simp add: round_number_def b')
qed

lemma sum_list_bounded:
  fixes f :: "'a \<Rightarrow> nat"
  assumes "\<forall>x\<in>set xs. f x \<le> k"
  shows "sum_list (map f xs) \<le> k * length xs"
  using assms by (induction xs) auto

lemma round_number_le:
  assumes "wf_board b"
  shows "round_number b \<le> MAX_ROUNDS"
proof -
  have "\<forall>col\<in>set b. length (filter (\<lambda>v. v \<noteq> 0) col) \<le> COLUMN_HEIGHT"
    using assms by (auto simp: wf_board_def list_all_iff intro: order_trans[OF length_filter_le])
  from sum_list_bounded[OF this] show ?thesis
    using assms by (simp add: round_number_def wf_board_def MAX_ROUNDS_def mult.commute)
qed

lemma sum_list_full:
  fixes f :: "'a \<Rightarrow> nat"
  assumes "\<forall>x\<in>set xs. f x = k"
  shows "sum_list (map f xs) = k * length xs"
  using assms by (induction xs) auto

lemma valid_moves_nonempty:
  assumes "wf_board b" "gravity b" "round_number b \<noteq> MAX_ROUNDS"
  shows "valid_moves b \<noteq> []"
proof
  assume e: "valid_moves b = []"
  have "\<forall>col\<in>set b. length (filter (\<lambda>v. v \<noteq> 0) col) = COLUMN_HEIGHT"
  proof
    fix col assume "col \<in> set b"
    then obtain c where c: "c < length b" "col = b ! c" by (auto simp: in_set_conv_nth)
    then have cn: "c < NUM_COLUMNS" using assms(1) by (simp add: wf_board_def)
    have len: "length col = COLUMN_HEIGHT" using wf_board_col[OF assms(1) cn] c by simp
    have gc: "gravity_col col" using assms(2) c by (simp add: gravity_def list_all_length)
    have "c \<notin> set (valid_moves b)" using e by simp
    then have top: "col ! (COLUMN_HEIGHT - 1) \<noteq> 0" using cn c by (simp add: valid_moves_iff)
    have "\<forall>v\<in>set col. v \<noteq> 0"
    proof
      fix v assume "v \<in> set col"
      then obtain i where i: "i < length col" "v = col ! i" by (auto simp: in_set_conv_nth)
      show "v \<noteq> 0"
      proof
        assume "v = 0"
        then have "col ! (COLUMN_HEIGHT - 1) = 0"
          using gravity_col_zero_above[OF gc, of i "COLUMN_HEIGHT - 1"] i len by auto
        then show False using top by simp
      qed
    qed
    then have "filter (\<lambda>v. v \<noteq> 0) col = col" by (simp add: filter_id_conv)
    then show "length (filter (\<lambda>v. v \<noteq> 0) col) = COLUMN_HEIGHT" using len by simp
  qed
  from sum_list_full[OF this] have "round_number b = MAX_ROUNDS"
    using assms(1) by (simp add: round_number_def wf_board_def MAX_ROUNDS_def mult.commute)
  then show False using assms(3) by simp
qed


section \<open>Board model and move selector: the checked properties\<close>

lemma random_choice_member:
  "xs \<noteq> [] \<Longrightarrow> \<exists>x. random_choice xs g = Inr (x, stl g) \<and> x \<in> set xs"
  by (simp add: random_choice_def)

lemma board_any_iff: "list_ex (list_ex (\<lambda>x. x \<noteq> 0)) b \<longleftrightarrow> round_number b \<noteq> 0"
  by (auto simp: round_number_def list_ex_iff filter_empty_conv)

lemma member_le_sum_list_map:
  fixes f :: "'a \<Rightarrow> nat"
  shows "x \<in> set xs \<Longrightarrow> f x \<le> sum_list (map f xs)"
  by (induction xs) auto

lemma column_count_le_round_number:
  assumes "c < length b"
  shows "length (filter (\<lambda>v. v \<noteq> 0) (b ! c)) \<le> round_number b"
  unfolding round_number_def using assms by (intro member_le_sum_list_map) simp

lemma play_few_discs:
  assumes "wf_board b" "round_number b < COLUMN_HEIGHT" "c < NUM_COLUMNS"
  shows "\<exists>b'. play b c p = Inr b'"
proof -
  have c: "c < length b" using assms by (simp add: wf_board_def)
  have len: "length (b ! c) = COLUMN_HEIGHT" using wf_board_col assms by blast
  have "length (filter (\<lambda>v. v \<noteq> 0) (b ! c)) < length (b ! c)"
    using column_count_le_round_number[OF c] assms(2) len by simp
  then have "filter (\<lambda>v. v \<noteq> 0) (b ! c) \<noteq> b ! c" by auto
  then have "0 \<in> set (b ! c)" by (auto simp: filter_id_conv)
  then show ?thesis using play_succeeds c by blast
qed


text \<open>
  Claim C7. On a board that satisfies gravity, for a column \<open>c\<close> of the board that still
  has an empty cell and a player \<open>p\<close>, \<open>play\<close> succeeds and \<open>take_back\<close> on the same
  column then gives back exactly the board before the move.
\<close>

theorem play_take_back_round_trip:
  assumes "gravity b" and "c < length b" and "0 \<in> set (b ! c)" and "p = 1 \<or> p = - 1"
  shows "\<exists>b'. play b c p = Inr b' \<and> take_back b' c = Inr b"
proof -
  have "p \<noteq> 0" using assms(4) by auto
  then show ?thesis using play_take_back[OF assms(1-3)] by blast
qed

theorem play_take_back_round_trip_witness:
  "gravity three_board \<and> 0 < length three_board \<and> 0 \<in> set (three_board ! 0)
   \<and> (\<exists>b'. play three_board 0 1 = Inr b' \<and> take_back b' 0 = Inr three_board)"
  using play_take_back_round_trip[of three_board 0 1]
  by (simp add: three_board_def gravity_def gravity_col_def)

text \<open>
  Claim C6. For every player and both strategies, \<open>choose_move\<close> plays and returns column
  3 on a board with no disc and on a board with one disc, and on a board with two discs it
  plays and returns one of the columns 2, 3 and 4. The returned board is the caller's board
  after \<open>play\<close>.
\<close>

theorem choose_move_opening:
  assumes "wf_board b"
  shows "(round_number b = 0 \<or> round_number b = 1 \<longrightarrow>
            (\<exists>b'. play b 3 player = Inr b'
                 \<and> choose_move ucb b player v g = Some (Inr (Some 3, b', g))))
       \<and> (round_number b = 2 \<longrightarrow>
            (\<exists>m b'. m \<in> {2, 3, 4} \<and> play b m player = Inr b'
                 \<and> choose_move ucb b player v g = Some (Inr (Some m, b', stl g))))"
proof (intro conjI impI)
  assume r: "round_number b = 0 \<or> round_number b = 1"
  then have "round_number b < COLUMN_HEIGHT" by (auto simp: COLUMN_HEIGHT_def)
  from play_few_discs[OF assms this, of 3 player] obtain b' where "play b 3 player = Inr b'"
    by (auto simp: NUM_COLUMNS_def)
  then show "\<exists>b'. play b 3 player = Inr b' \<and> choose_move ucb b player v g = Some (Inr (Some 3, b', g))"
    using r by (auto simp: choose_move_def board_any_iff)
next
  assume r: "round_number b = 2"
  then have lt: "round_number b < COLUMN_HEIGHT" by (auto simp: COLUMN_HEIGHT_def)
  obtain m where m: "random_choice [2, 3, 4] g = Inr (m, stl g)" "m \<in> {2, 3, 4}"
  proof -
    have "shd g mod 3 < 3" by simp
    then have "shd g mod 3 = 0 \<or> shd g mod 3 = 1 \<or> shd g mod 3 = 2" by linarith
    then have "[2, 3, 4] ! (shd g mod 3) \<in> {2, 3, 4::nat}" by auto
    then show ?thesis using that by (simp add: random_choice_def)
  qed
  from play_few_discs[OF assms lt, of m player] m(2) obtain b' where "play b m player = Inr b'"
    by (auto simp: NUM_COLUMNS_def)
  then show "\<exists>m b'. m \<in> {2, 3, 4} \<and> play b m player = Inr b'
                \<and> choose_move ucb b player v g = Some (Inr (Some m, b', stl g))"
    using r m by (auto simp: choose_move_def board_any_iff)
qed

theorem choose_move_opening_witness:
  "wf_board initialize_board \<and> round_number initialize_board = 0
   \<and> (\<exists>b'. play initialize_board 3 1 = Inr b'
          \<and> choose_move (\<lambda>w n m. 0) initialize_board 1 1 (sconst 0) = Some (Inr (Some 3, b', sconst 0)))
   \<and> wf_board opening_board \<and> round_number opening_board = 2
   \<and> (\<exists>m b'. m \<in> {2, 3, 4} \<and> play opening_board m (- 1) = Inr b'
          \<and> choose_move (\<lambda>w n m. 0) opening_board (- 1) 2 (sconst 0) = Some (Inr (Some m, b', stl (sconst 0))))"
proof -
  have w0: "wf_board initialize_board" by code_simp
  have r0: "round_number initialize_board = 0" by code_simp
  have w2: "wf_board opening_board" by code_simp
  have r2: "round_number opening_board = 2" by code_simp
  show ?thesis
    using choose_move_opening[OF w0, of 1 "\<lambda>w n m. 0" 1 "sconst 0"]
      choose_move_opening[OF w2, of "- 1" "\<lambda>w n m. 0" 2 "sconst 0"] w0 r0 w2 r2
    by simp
qed

text \<open>
  Claim C1, evaluated on the code. \<open>terminal_state\<close> tests the number of discs first: on
  the full board \<open>won_full_board\<close>, where player \<open>-1\<close> has a line of four, it returns the
  draw value \<open>0\<close>, not the win of player \<open>-1\<close>.
\<close>

theorem terminal_state_full_board_with_line:
  "round_number won_full_board = MAX_ROUNDS \<and> four_in_a_row won_full_board (- 1)
   \<and> terminal_state won_full_board = Some 0"
  by code_simp

text \<open>
  Claim C2, as the code has it. For every board with at least one legal move, the first
  move of the playout \<open>_mc(board, player)\<close> is made by \<open>player\<close>: \<open>p\<close> starts as
  \<open>-player\<close> and is negated before the first disc is dropped.
\<close>

theorem mc_first_ply_by_player:
  assumes "wf_board b" and "valid_moves b \<noteq> []"
  shows "first_ply_by b player g player"
proof -
  from random_choice_member[OF assms(2)] obtain c where
    c: "random_choice (valid_moves b) g = Inr (c, stl g)" "c \<in> set (valid_moves b)" by blast
  from valid_move_play[OF assms(1) c(2)] obtain b' where b': "play b c player = Inr b'" by blast
  show ?thesis
    unfolding first_ply_by_def mc_def
    by (subst mc_loop.simps) (simp add: c b' assms(2))
qed

theorem mc_first_ply_by_player_witness:
  "wf_board last_move_board \<and> valid_moves last_move_board \<noteq> []
   \<and> first_ply_by last_move_board (- 1) (sconst 0) (- 1)"
  using mc_first_ply_by_player[of last_move_board "- 1" "sconst 0"]
  by (simp add: last_move_board_def won_full_board_def wf_board_def valid_moves_def
      NUM_COLUMNS_def COLUMN_HEIGHT_def upt_conv_Cons)

text \<open>
  Claim C2 as stated fails: on \<open>last_move_board\<close> with \<open>player = -1\<close> the first move of
  the playout is not made by the opponent \<open>1\<close>.
\<close>

theorem mc_first_ply_not_by_opponent:
  "\<not> first_ply_by last_move_board (- 1) (sconst 0) 1"
  by (simp add: first_ply_by_def mc_def mc_loop.simps last_move_board_def won_full_board_def
      valid_moves_def NUM_COLUMNS_def COLUMN_HEIGHT_def upt_conv_Cons random_choice_def play_def
      four_in_a_row_def FOUR_def)


section \<open>The move selector on a board without legal moves\<close>

lemma max_by_Nil: "max_by key [] = Inl ValueError"
  by (simp add: max_by_def)

lemma mcts_iteration_no_moves:
  assumes "length st = 1" "childs (st ! 0) = []" "next_moves (st ! 0) = []"
    "node_parent (st ! 0) = None" "node_board (st ! 0) = b" "terminal_state b = Some w"
  shows "\<exists>st'. mcts_iteration ucb st g = Some (Inr (st', g)) \<and> length st' = 1
        \<and> childs (st' ! 0) = [] \<and> next_moves (st' ! 0) = [] \<and> node_parent (st' ! 0) = None
        \<and> node_board (st' ! 0) = b"
proof -
  have d: "descend ucb st 0 = Some (Inr 0)"
    by (subst descend.simps) (simp add: assms)
  have e: "expansion st 0 g = Inr (st, 0, g)" by (simp add: expansion_def assms)
  have r: "rollout st 0 g = Some (Inr (w, g))" by (simp add: rollout_def assms)
  obtain n2 where bp: "backpropagate st (Some 0) w = Some (st[0 := n2])"
    and n2: "childs n2 = []" "next_moves n2 = []" "node_parent n2 = None" "node_board n2 = b"
  proof -
    let ?n = "st ! 0"
    let ?n1 = "(if w = 0 then ?n\<lparr>num_wins := num_wins ?n + 1 / 2\<rparr>
                else if w = node_player ?n then ?n\<lparr>num_wins := num_wins ?n + 1\<rparr> else ?n)"
    let ?n2 = "?n1\<lparr>num_visits := num_visits ?n1 + 1\<rparr>"
    have p: "node_parent ?n2 = None" using assms(4) by simp
    have "backpropagate st (Some 0) w = backpropagate (st[0 := ?n2]) (node_parent ?n2) w"
      by (subst backpropagate.simps) (simp add: Let_def)
    also have "\<dots> = Some (st[0 := ?n2])"
      unfolding p by (subst backpropagate.simps) simp
    finally have "backpropagate st (Some 0) w = Some (st[0 := ?n2])" .
    moreover have "childs ?n2 = []" "next_moves ?n2 = []" "node_parent ?n2 = None" "node_board ?n2 = b"
      using assms by auto
    ultimately show ?thesis using that by blast
  qed
  show ?thesis
    using d e r bp n2 assms(1) by (simp add: mcts_iteration_def)
qed

lemma mcts_loop_no_moves:
  assumes "length st = 1" "childs (st ! 0) = []" "next_moves (st ! 0) = []"
    "node_parent (st ! 0) = None" "node_board (st ! 0) = b" "terminal_state b = Some w"
  shows "\<exists>st'. mcts_loop ucb n st g = Some (Inr (st', g)) \<and> childs (st' ! 0) = []"
  using assms
proof (induction n arbitrary: st)
  case 0
  then show ?case by simp
next
  case (Suc n)
  from mcts_iteration_no_moves[OF Suc.prems, of ucb g] obtain st1 where
    it: "mcts_iteration ucb st g = Some (Inr (st1, g))" and st1: "length st1 = 1"
      "childs (st1 ! 0) = []" "next_moves (st1 ! 0) = []" "node_parent (st1 ! 0) = None"
      "node_board (st1 ! 0) = b" by blast
  from Suc.IH[OF st1 Suc.prems(6)] it show ?case by simp
qed

lemma MCTS_no_moves:
  assumes "valid_moves b = []" "terminal_state b = Some w"
  shows "MCTS ucb b player n g = Some (Inl ValueError)"
proof -
  let ?st = "[new_node b (- player) None None]"
  have "\<exists>st'. mcts_loop ucb n ?st g = Some (Inr (st', g)) \<and> childs (st' ! 0) = []"
    by (rule mcts_loop_no_moves[where b = b and w = w]) (simp_all add: new_node_def assms)
  then show ?thesis by (auto simp: MCTS_def max_by_Nil)
qed

text \<open>
  Claim C3, evaluated on the code. On the full board \<open>drawn_full_board\<close>, which has no
  legal move and no line of four, \<open>choose_move\<close> with the MCTS strategy (\<open>v = 1\<close>) raises
  \<open>ValueError\<close>: the root has no child, and \<open>max\<close> of the empty list of children raises.
  With the minimax strategy it returns \<open>None\<close> and leaves the board as it is.
\<close>

theorem choose_move_mcts_full_board:
  "choose_move ucb drawn_full_board 1 1 g = Some (Inl ValueError)
   \<and> choose_move ucb drawn_full_board 1 2 g = Some (Inr (None, drawn_full_board, g))"
proof -
  have v: "valid_moves drawn_full_board = []" by code_simp
  have t: "terminal_state drawn_full_board = Some 0" by code_simp
  have r: "round_number drawn_full_board = 42" by code_simp
  have a: "list_ex (list_ex (\<lambda>x. x \<noteq> 0)) drawn_full_board" by code_simp
  have m: "minimax drawn_full_board 1 1 (- 1000) 1000 MAX_DEPTH g = Some (Inr ((0, None), drawn_full_board, g))"
    using r by (simp add: MAX_ROUNDS_def NUM_COLUMNS_def COLUMN_HEIGHT_def)
  show ?thesis
    using MCTS_no_moves[OF v t] r a m by (simp add: choose_move_def)
qed

theorem choose_move_mcts_full_board_witness:
  "list_ex (list_ex (\<lambda>x. x \<noteq> 0)) drawn_full_board \<and> valid_moves drawn_full_board = []
   \<and> choose_move (\<lambda>w n m. 0) drawn_full_board 1 1 (sconst 0) = Some (Inl ValueError)
   \<and> choose_move (\<lambda>w n m. 0) drawn_full_board 1 2 (sconst 0)
       = Some (Inr (None, drawn_full_board, sconst 0))"
proof -
  have a: "list_ex (list_ex (\<lambda>x. x \<noteq> 0)) drawn_full_board" by code_simp
  have v: "valid_moves drawn_full_board = []" by code_simp
  show ?thesis
    using choose_move_mcts_full_board[of "\<lambda>w n m. 0" "sconst 0"] a v by simp
qed


section \<open>Alpha-beta minimax: the checked properties\<close>

lemma valid_move_play_take_back:
  assumes "wf_board b" "gravity b" "p \<noteq> 0" "m \<in> set (valid_moves b)"
  shows "\<exists>b'. play b m p = Inr b' \<and> take_back b' m = Inr b"
  using play_take_back[OF assms(2) _ _ assms(3)] valid_move_has_zero[OF assms(1,4)] by blast

lemma can_win_loop_result:
  assumes "wf_board b" "gravity b" "p \<noteq> 0" "set ms \<subseteq> set (valid_moves b)"
    and "(int MAX_ROUNDS - (rn - 1)) div 2 \<noteq> 0"
  shows "can_win_loop b p ms rn =
           Inr ((case find (wins_with b p) ms of
                   None \<Rightarrow> (None, None)
                 | Some m \<Rightarrow> (Some ((int MAX_ROUNDS - (rn - 1)) div 2), Some m)), b)"
  using assms(4)
proof (induction ms)
  case Nil
  then show ?case by simp
next
  case (Cons m ms)
  then have m: "m \<in> set (valid_moves b)" and ms: "set ms \<subseteq> set (valid_moves b)" by auto
  from valid_move_play_take_back[OF assms(1-3) m] obtain b1 where
    b1: "play b m p = Inr b1" "take_back b1 m = Inr b" by blast
  have w: "wins_with b p m = four_in_a_row b1 p" by (simp add: wins_with_def b1)
  show ?case
    using Cons.IH[OF ms] b1 w assms(5) by (simp add: truthy_def)
qed

lemma win_score_pos:
  assumes "wf_board b" "round_number b \<noteq> MAX_ROUNDS"
  shows "(int MAX_ROUNDS - (int (round_number b) - 1)) div 2 \<noteq> 0"
proof -
  have "round_number b < MAX_ROUNDS" using round_number_le[OF assms(1)] assms(2) by simp
  then have "int MAX_ROUNDS - (int (round_number b) - 1) \<ge> 2" by simp
  then show ?thesis by linarith
qed

lemma can_win_next_move_result:
  assumes "wf_board b" "gravity b" "p \<noteq> 0" "round_number b \<noteq> MAX_ROUNDS"
  shows "can_win_next_move b p (Some (valid_moves b)) (Some (int (round_number b))) =
           Inr ((case find (wins_with b p) (valid_moves b) of
                   None \<Rightarrow> (None, None)
                 | Some m \<Rightarrow> (Some ((int MAX_ROUNDS - (int (round_number b) - 1)) div 2), Some m)), b)"
  unfolding can_win_next_move_def
  using can_win_loop_result[OF assms(1-3) subset_refl win_score_pos[OF assms(1,4)]] by simp

text \<open>
  Claim C4. On a board that is not full and on which \<open>player\<close> completes a line of four
  with some legal move, \<open>minimax\<close> returns, for every \<open>depth\<close>, \<open>alpha\<close>, \<open>beta\<close> and
  \<open>max_depth\<close>, a legal move that completes a line together with the score
  \<open>(MAX_ROUNDS - (round_number board - 1)) // 2\<close>; the board and the random source are as
  they were, so nothing was searched below this ply.
\<close>

theorem minimax_win_in_one:
  assumes "wf_board b" and "gravity b" and "player = 1 \<or> player = - 1"
    and "round_number b \<noteq> MAX_ROUNDS"
    and "\<exists>m\<in>set (valid_moves b). wins_with b player m"
  shows "\<exists>m. m \<in> set (valid_moves b) \<and> wins_with b player m
           \<and> minimax b player depth alpha beta max_depth g =
               Some (Inr (((int MAX_ROUNDS - (int (round_number b) - 1)) div 2, Some m), b, g))"
proof -
  have p: "player \<noteq> 0" using assms(3) by auto
  from assms(5) obtain m where m: "find (wins_with b player) (valid_moves b) = Some m"
    by (cases "find (wins_with b player) (valid_moves b)") (auto simp: find_None_iff)
  then have mm: "m \<in> set (valid_moves b)" "wins_with b player m"
    by (auto simp: find_Some_iff)
  have "minimax b player depth alpha beta max_depth g =
               Some (Inr (((int MAX_ROUNDS - (int (round_number b) - 1)) div 2, Some m), b, g))"
    using can_win_next_move_result[OF assms(1,2) p assms(4)] m assms(4)
      win_score_pos[OF assms(1,4)]
    by (simp add: truthy_def)
  with mm show ?thesis by blast
qed

theorem minimax_win_in_one_witness:
  "wf_board three_board \<and> gravity three_board \<and> round_number three_board \<noteq> MAX_ROUNDS
   \<and> (\<exists>m\<in>set (valid_moves three_board). wins_with three_board 1 m)
   \<and> (\<exists>m. m \<in> set (valid_moves three_board) \<and> wins_with three_board 1 m
         \<and> minimax three_board 1 1 (- 1000) 1000 3 (sconst 0) =
             Some (Inr (((int MAX_ROUNDS - (int (round_number three_board) - 1)) div 2, Some m),
                        three_board, sconst 0)))"
proof -
  have w: "wf_board three_board" by code_simp
  have gr: "gravity three_board" by code_simp
  have r: "round_number three_board \<noteq> MAX_ROUNDS" by code_simp
  have e: "\<exists>m\<in>set (valid_moves three_board). wins_with three_board 1 m" by code_simp
  show ?thesis
    using minimax_win_in_one[OF w gr _ r e, of 1 "- 1000" 1000 3 "sconst 0"] w gr r e by simp
qed

text \<open>
  Claim C5. On a board that is not full and on which \<open>player\<close> completes no line with any
  legal move, \<open>minimax\<close> lowers \<open>beta\<close> to \<open>(MAX_ROUNDS - (round_number board + 1)) // 2\<close>
  when it exceeds that bound; if \<open>alpha >= beta\<close> then holds it returns \<open>(beta, None)\<close>
  with the board and the random source as they were, and otherwise it goes on with the
  lowered \<open>beta\<close>.
\<close>

theorem minimax_clip_and_prune:
  assumes "wf_board b" and "gravity b" and "player = 1 \<or> player = - 1"
    and "round_number b \<noteq> MAX_ROUNDS"
    and "\<forall>m\<in>set (valid_moves b). \<not> wins_with b player m"
  shows "minimax b player depth alpha beta max_depth g =
           (let max_score = (int MAX_ROUNDS - (int (round_number b) + 1)) div 2;
                beta' = (if beta > max_score then max_score else beta)
            in if alpha \<ge> beta' then Some (Inr ((beta', None), b, g))
               else if depth > max_depth then
                 (case mc_simulation b player g of
                    None \<Rightarrow> None
                  | Some (Inl e) \<Rightarrow> Some (Inl e)
                  | Some (Inr (r, g')) \<Rightarrow> Some (Inr (r, b, g')))
               else minimax_loop SEARCH_ORDER (valid_moves b) b player depth alpha beta' None g)"
proof -
  have p: "player \<noteq> 0" using assms(3) by auto
  have f: "find (wins_with b player) (valid_moves b) = None"
    using assms(5) by (simp add: find_None_iff)
  show ?thesis
    using can_win_next_move_result[OF assms(1,2) p assms(4)] f assms(4)
    by (simp add: truthy_def Let_def)
qed

theorem minimax_clip_and_prune_witness:
  "wf_board opening_board \<and> gravity opening_board \<and> round_number opening_board \<noteq> MAX_ROUNDS
   \<and> find (wins_with opening_board 1) (valid_moves opening_board) = None
   \<and> minimax opening_board 1 1 100 1000 3 (sconst 0) = Some (Inr ((19, None), opening_board, sconst 0))"
proof -
  have w: "wf_board opening_board" by code_simp
  have gr: "gravity opening_board" by code_simp
  have r: "round_number opening_board \<noteq> MAX_ROUNDS" by code_simp
  have r2: "round_number opening_board = 2" by code_simp
  have e: "\<forall>m\<in>set (valid_moves opening_board). \<not> wins_with opening_board 1 m" by code_simp
  show ?thesis
    using minimax_clip_and_prune[OF w gr _ r e, of 1 100 1000 3 "sconst 0"] w gr r e
    by (simp add: r2 MAX_ROUNDS_def NUM_COLUMNS_def COLUMN_HEIGHT_def find_None_iff)
qed


section \<open>Alpha-beta minimax: the board after the search\<close>

lemma mc_playout_returns:
  assumes "wf_board b" "gravity b" "tp \<noteq> 0" "mv \<in> set (valid_moves b)"
  shows "\<exists>s g'. mc_playout b tp mv p g = Some (Inr (s, g'))"
  using assms
proof (induction "MAX_ROUNDS - round_number b" arbitrary: b tp mv g rule: less_induct)
  case less
  from valid_move_play[OF less.prems(1,4)] obtain b' where b': "play b mv tp = Inr b'" by blast
  have wf': "wf_board b'" using wf_board_play[OF less.prems(1) b'] .
  have gr': "gravity b'" using gravity_play[OF less.prems(2) b'] .
  have rn': "round_number b' = Suc (round_number b)" using round_number_play[OF b' less.prems(3)] .
  show ?case
  proof (cases "round_number b' = MAX_ROUNDS \<or> four_in_a_row b' tp")
    case True
    then show ?thesis by (subst mc_playout.simps) (auto simp: b')
  next
    case False
    then have "valid_moves b' \<noteq> []" using valid_moves_nonempty[OF wf' gr'] by blast
    from random_choice_member[OF this] obtain mv' where
      c: "random_choice (valid_moves b') g = Inr (mv', stl g)" "mv' \<in> set (valid_moves b')" by blast
    have "MAX_ROUNDS - round_number b' < MAX_ROUNDS - round_number b"
      using rn' round_number_le[OF wf'] by simp
    from less.hyps[OF this wf' gr' _ c(2), of "- tp" "stl g"] less.prems(3)
    obtain s g' where "mc_playout b' (- tp) mv' p (stl g) = Some (Inr (s, g'))" by auto
    then show ?thesis using False by (subst mc_playout.simps) (simp add: b' c)
  qed
qed

lemma mc_simulation_loop_returns:
  assumes "wf_board b" "gravity b" "p \<noteq> 0" "valid_moves b \<noteq> []"
  shows "\<exists>r g'. mc_simulation_loop n b p best_score best_move g = Some (Inr (r, g'))"
proof (induction n arbitrary: best_score best_move g)
  case 0
  then show ?case by simp
next
  case (Suc n)
  from random_choice_member[OF assms(4)] obtain mv where
    c: "random_choice (valid_moves b) g = Inr (mv, stl g)" "mv \<in> set (valid_moves b)" by blast
  from mc_playout_returns[OF assms(1-3) c(2)] obtain s g1 where
    po: "mc_playout b p mv p (stl g) = Some (Inr (s, g1))" by blast
  show ?case using c(1) po Suc.IH by simp
qed

lemma mc_simulation_returns:
  assumes "wf_board b" "gravity b" "p \<noteq> 0" "round_number b \<noteq> MAX_ROUNDS"
  shows "\<exists>r g'. mc_simulation b p g = Some (Inr (r, g'))"
  unfolding mc_simulation_def
  using mc_simulation_loop_returns[OF assms(1-3) valid_moves_nonempty[OF assms(1,2,4)]] .

lemma minimax_returns_board:
  "wf_board b \<Longrightarrow> gravity b \<Longrightarrow> player \<noteq> 0 \<Longrightarrow>
     \<exists>r g'. minimax b player depth alpha beta max_depth g = Some (Inr (r, b, g'))"
  and "wf_board b \<Longrightarrow> gravity b \<Longrightarrow> player \<noteq> 0 \<Longrightarrow> set moves \<subseteq> set (valid_moves b) \<Longrightarrow>
     \<exists>r g'. minimax_loop order moves b player depth alpha beta best_move g = Some (Inr (r, b, g'))"
proof (induction b player depth alpha beta max_depth g
         and order moves b player depth alpha beta best_move g
       rule: minimax_minimax_loop.induct)
  case (1 b player depth alpha beta max_depth g)
  show ?case
  proof (cases "round_number b = MAX_ROUNDS")
    case True
    then show ?thesis by simp
  next
    case False
    let ?res = "case find (wins_with b player) (valid_moves b) of
                   None \<Rightarrow> (None, None)
                 | Some m \<Rightarrow> (Some ((int MAX_ROUNDS - (int (round_number b) - 1)) div 2), Some m)"
    have cw: "can_win_next_move b player (Some (valid_moves b)) (Some (int (round_number b))) =
                Inr (?res, b)"
      using can_win_next_move_result[OF "1.prems" False] .
    obtain score m where sm: "?res = (score, m)" by (cases ?res) auto
    let ?max_score = "(int MAX_ROUNDS - (int (round_number b) + 1)) div 2"
    let ?beta = "if ?max_score < beta then ?max_score else beta"
    show ?thesis
    proof (cases "truthy score")
      case True
      then show ?thesis using False cw sm by simp
    next
      case nt: False
      show ?thesis
      proof (cases "?beta \<le> alpha")
        case True
        then show ?thesis using False cw sm nt by (simp add: Let_def)
      next
        case np: False
        show ?thesis
        proof (cases "max_depth < depth")
          case True
          from mc_simulation_returns[OF "1.prems" False, of g] obtain r g' where
            "mc_simulation b player g = Some (Inr (r, g'))" by blast
          then show ?thesis using False cw sm nt np True by (simp add: Let_def)
        next
          case nd: False
          have "\<exists>r g'. minimax_loop SEARCH_ORDER (valid_moves b) b player depth alpha ?beta None g
                  = Some (Inr (r, b, g'))"
            using "1.IH"[OF refl False refl cw[unfolded sm] refl refl nt refl refl np nd] "1.prems"
            by simp
          then show ?thesis using False cw sm nt np nd by (simp add: Let_def)
        qed
      qed
    qed
  qed
next
  case (2 moves b player depth alpha beta best_move g)
  then show ?case by simp
next
  case (3 m order moves b player depth alpha beta best_move g)
  show ?case
  proof (cases "m \<in> set moves")
    case False
    then show ?thesis using "3.IH"(4)[OF False "3.prems"] by simp
  next
    case True
    then have mv: "m \<in> set (valid_moves b)" using "3.prems"(4) by blast
    from valid_move_play_take_back[OF "3.prems"(1-3) mv] obtain b1 where
      b1: "play b m player = Inr b1" "take_back b1 m = Inr b" by blast
    have wf1: "wf_board b1" using wf_board_play[OF "3.prems"(1) b1(1)] .
    have gr1: "gravity b1" using gravity_play[OF "3.prems"(2) b1(1)] .
    have np: "- player \<noteq> 0" using "3.prems"(3) by simp
    from "3.IH"(1)[OF True b1(1) wf1 gr1 np] obtain s mv' g1 where
      mm: "minimax b1 (- player) (depth + 1) (- beta) (- alpha) MAX_DEPTH g =
             Some (Inr ((s, mv'), b1, g1))" by auto
    show ?thesis
    proof (cases "beta \<le> - s")
      case True
      then show ?thesis using \<open>m \<in> set moves\<close> b1 mm by simp
    next
      case nb: False
      show ?thesis
      proof (cases "alpha < - s")
        case True
        from "3.IH"(2)[OF \<open>m \<in> set moves\<close> b1(1) mm refl refl refl refl refl b1(2) nb True "3.prems"]
        show ?thesis using \<open>m \<in> set moves\<close> b1 mm nb True by simp
      next
        case False
        from "3.IH"(3)[OF \<open>m \<in> set moves\<close> b1(1) mm refl refl refl refl refl b1(2) nb False "3.prems"]
        show ?thesis using \<open>m \<in> set moves\<close> b1 mm nb False by simp
      qed
    qed
  qed
qed

lemma can_win_loop_restores:
  assumes "wf_board b" "gravity b" "p \<noteq> 0" "set ms \<subseteq> set (valid_moves b)"
  shows "\<exists>r. can_win_loop b p ms rn = Inr (r, b)"
  using assms(4)
proof (induction ms)
  case Nil
  then show ?case by simp
next
  case (Cons m ms)
  then have m: "m \<in> set (valid_moves b)" and ms: "set ms \<subseteq> set (valid_moves b)" by auto
  from valid_move_play_take_back[OF assms(1-3) m] obtain b1 where
    b1: "play b m p = Inr b1" "take_back b1 m = Inr b" by blast
  show ?case using Cons.IH[OF ms] b1 by (auto simp: Let_def)
qed

text \<open>
  Claim C9. A call of \<open>minimax\<close> on a board that satisfies gravity returns, and the board
  it leaves is exactly the board it was given: every \<open>play\<close> of the move loop and of
  \<open>can_win_next_move\<close> is undone by the \<open>take_back\<close> that follows it on every path,
  the beta cutoff included. \<open>can_win_next_move\<close> alone leaves the board unchanged too.
\<close>

theorem minimax_restores_board:
  assumes "wf_board b" and "gravity b" and "player = 1 \<or> player = - 1"
  shows "(\<exists>r g'. minimax b player depth alpha beta max_depth g = Some (Inr (r, b, g')))
       \<and> (\<exists>r. can_win_next_move b player None round_num = Inr (r, b))"
proof -
  have p: "player \<noteq> 0" using assms(3) by auto
  show ?thesis
    using minimax_returns_board(1)[OF assms(1,2) p] can_win_loop_restores[OF assms(1,2) p subset_refl]
    by (simp add: can_win_next_move_def)
qed

theorem minimax_restores_board_witness:
  "wf_board opening_board \<and> gravity opening_board
   \<and> (\<exists>r g'. minimax opening_board 1 1 (- 1000) 1000 3 (sconst 0) = Some (Inr (r, opening_board, g')))
   \<and> (\<exists>r. can_win_next_move opening_board 1 None None = Inr (r, opening_board))"
proof -
  have w: "wf_board opening_board" by code_simp
  have gr: "gravity opening_board" by code_simp
  show ?thesis
    using minimax_restores_board[OF w gr, of 1 1 "- 1000" 1000 3 "sconst 0" None] w gr by simp
qed


section \<open>MCTS: the search tree keeps its invariants\<close>

subsection \<open>Selection and rollout return\<close>

lemma max_by_loop_member:
  assumes "\<forall>x\<in>set xs. \<exists>k. key x = Inr k"
  shows "\<exists>y\<in>insert best (set xs). max_by_loop key best kb xs = Inr y"
  using assms
proof (induction xs arbitrary: best kb)
  case Nil
  then show ?case by simp
next
  case (Cons x xs)
  then obtain kx where kx: "key x = Inr kx" by auto
  have rest: "\<forall>x\<in>set xs. \<exists>k. key x = Inr k" using Cons.prems by simp
  show ?case
  proof (cases "kb < kx")
    case True
    from Cons.IH[OF rest, of x kx] show ?thesis using kx True by auto
  next
    case False
    from Cons.IH[OF rest, of best kb] show ?thesis using kx False by auto
  qed
qed

lemma max_by_member:
  assumes "xs \<noteq> []" "\<forall>x\<in>set xs. \<exists>k. key x = Inr k"
  shows "\<exists>y\<in>set xs. max_by key xs = Inr y"
proof -
  obtain x xs' where xs: "xs = x # xs'" using assms(1) by (cases xs) auto
  then obtain kx where kx: "key x = Inr kx" using assms(2) by auto
  have "\<forall>x\<in>set xs'. \<exists>k. key x = Inr k" using assms(2) xs by simp
  from max_by_loop_member[OF this, of x kx] show ?thesis using xs kx by (auto simp: max_by_def)
qed

lemma tree_ok_node: "tree_ok st \<Longrightarrow> i < length st \<Longrightarrow> node_ok st i"
  by (simp add: tree_ok_def)

lemma node_ok_child:
  assumes "node_ok st i" "c \<in> set (childs (st ! i))"
  shows "i < c" "c < length st" "node_parent (st ! c) = Some i"
    "\<exists>m\<in>set (valid_moves (node_board (st ! i))). node_move (st ! c) = Some m"
  using assms unfolding node_ok_def by blast+

lemma child_scores:
  assumes "tree_ok st" "visited st" "i < length st" "c \<in> set (childs (st ! i))"
  shows "\<exists>k. UCB1 ucb st c = Inr k" and "\<exists>r. win_rate st c = Inr r"
proof -
  have ok: "node_ok st i" using tree_ok_node[OF assms(1,3)] .
  have c: "i < c" "c < length st" "node_parent (st ! c) = Some i"
    using node_ok_child[OF ok assms(4)] by auto
  then have "1 \<le> num_visits (st ! c)" using assms(2) by (simp add: visited_def)
  then show "\<exists>k. UCB1 ucb st c = Inr k" and "\<exists>r. win_rate st c = Inr r"
    using c(3) by (auto simp: UCB1_def win_rate_def)
qed

lemma descend_returns:
  assumes "tree_ok st" "visited st" "i < length st"
  shows "\<exists>j. descend ucb st i = Some (Inr j) \<and> j < length st
          \<and> (childs (st ! j) = [] \<or> next_moves (st ! j) \<noteq> [])
          \<and> (j \<noteq> i \<longrightarrow> childs (st ! i) \<noteq> [])"
  using assms(3)
proof (induction "length st - i" arbitrary: i rule: less_induct)
  case less
  show ?case
  proof (cases "childs (st ! i) \<noteq> [] \<and> next_moves (st ! i) = []")
    case False
    then show ?thesis using less.prems by (subst descend.simps) auto
  next
    case True
    have "\<forall>c\<in>set (childs (st ! i)). \<exists>k. UCB1 ucb st c = Inr k"
      using child_scores(1)[OF assms(1,2) less.prems] by blast
    from max_by_member[OF _ this] True obtain c where
      c: "c \<in> set (childs (st ! i))" "selection ucb st i = Inr c"
      by (auto simp: selection_def)
    have ci: "i < c" "c < length st"
      using node_ok_child[OF tree_ok_node[OF assms(1) less.prems] c(1)] by auto
    then have "length st - c < length st - i" by simp
    from less.hyps[OF this ci(2)] obtain j where
      j: "descend ucb st c = Some (Inr j)" "j < length st"
         "childs (st ! j) = [] \<or> next_moves (st ! j) \<noteq> []" by blast
    show ?thesis using True c(2) j by (subst descend.simps) auto
  qed
qed

lemma simulate_loop_returns:
  assumes "wf_board b" "p \<noteq> 0"
  shows "\<exists>w g'. simulate_loop b p g = Some (Inr (w, g'))"
  using assms
proof (induction "MAX_ROUNDS - round_number b" arbitrary: b p g rule: less_induct)
  case less
  show ?case
  proof (cases "valid_moves b = []")
    case True
    then show ?thesis by (subst simulate_loop.simps) simp
  next
    case False
    from random_choice_member[OF this] obtain mv where
      c: "random_choice (valid_moves b) g = Inr (mv, stl g)" "mv \<in> set (valid_moves b)" by blast
    from valid_move_play[OF less.prems(1) c(2)] obtain b' where b': "play b mv p = Inr b'" by blast
    have wf': "wf_board b'" using wf_board_play[OF less.prems(1) b'] .
    have rn': "round_number b' = Suc (round_number b)" using round_number_play[OF b' less.prems(2)] .
    have "MAX_ROUNDS - round_number b' < MAX_ROUNDS - round_number b"
      using rn' round_number_le[OF wf'] by simp
    from less.hyps[OF this wf', of "- p" "stl g"] less.prems(2)
    obtain w g' where "simulate_loop b' (- p) (stl g) = Some (Inr (w, g'))" by auto
    then show ?thesis using False c(1) b' by (subst simulate_loop.simps) auto
  qed
qed

lemma rollout_returns:
  assumes "node_ok st j"
  shows "\<exists>w g'. rollout st j g = Some (Inr (w, g'))"
proof -
  have wf: "wf_board (node_board (st ! j))" and p: "- node_player (st ! j) \<noteq> 0"
    using assms by (auto simp: node_ok_def)
  from simulate_loop_returns[OF wf p] show ?thesis
    by (cases "terminal_state (node_board (st ! j))") (auto simp: rollout_def simulate_def)
qed

subsection \<open>Backpropagation\<close>

lemma stat_stepD:
  assumes "stat_step n n'"
  shows "node_board n' = node_board n" "node_player n' = node_player n"
    "node_parent n' = node_parent n" "node_move n' = node_move n"
    "childs n' = childs n" "next_moves n' = next_moves n"
    "num_visits n \<le> num_visits n'"
    "0 \<le> num_wins n \<Longrightarrow> num_wins n \<le> of_nat (num_visits n) \<Longrightarrow>
       0 \<le> num_wins n' \<and> num_wins n' \<le> of_nat (num_visits n')"
  using assms unfolding stat_step_def by auto

lemma stat_step_refl: "stat_step n n"
  unfolding stat_step_def by (intro exI[of _ "num_visits n"] exI[of _ "num_wins n"]) simp

lemma stat_step_bump:
  assumes "n1 = (if winner = 0 then n\<lparr>num_wins := num_wins n + 1 / 2\<rparr>
                 else if winner = node_player n then n\<lparr>num_wins := num_wins n + 1\<rparr> else n)"
    and "n2 = n1\<lparr>num_visits := num_visits n1 + 1\<rparr>"
  shows "stat_step n n2" "node_parent n2 = node_parent n" "num_visits n2 = Suc (num_visits n)"
proof -
  consider "winner = 0" | "winner \<noteq> 0" "winner = node_player n"
    | "winner \<noteq> 0" "winner \<noteq> node_player n" by blast
  then show "stat_step n n2"
  proof cases
    case 1
    then have "n2 = n\<lparr>num_visits := num_visits n + 1, num_wins := num_wins n + 1 / 2\<rparr>"
      using assms by simp
    then show ?thesis unfolding stat_step_def
      by (intro exI[of _ "num_visits n + 1"] exI[of _ "num_wins n + 1 / 2"]) simp
  next
    case 2
    then have "n2 = n\<lparr>num_visits := num_visits n + 1, num_wins := num_wins n + 1\<rparr>"
      using assms by simp
    then show ?thesis unfolding stat_step_def
      by (intro exI[of _ "num_visits n + 1"] exI[of _ "num_wins n + 1"]) simp
  next
    case 3
    then have "n2 = n\<lparr>num_visits := num_visits n + 1, num_wins := num_wins n\<rparr>"
      using assms by simp
    then show ?thesis unfolding stat_step_def
      by (intro exI[of _ "num_visits n + 1"] exI[of _ "num_wins n"]) simp
  qed
  show "node_parent n2 = node_parent n" using assms by simp
  show "num_visits n2 = Suc (num_visits n)" using assms by simp
qed

lemma backpropagate_returns:
  assumes "\<forall>k<length st. \<forall>q. node_parent (st ! k) = Some q \<longrightarrow> q < k" "j < length st"
  shows "\<exists>st'. backpropagate st (Some j) w = Some st' \<and> length st' = length st
      \<and> (\<forall>k<length st. stat_step (st ! k) (st' ! k))
      \<and> (\<forall>k<length st. j < k \<longrightarrow> st' ! k = st ! k)
      \<and> num_visits (st' ! j) = Suc (num_visits (st ! j))"
  using assms
proof (induction j arbitrary: st rule: less_induct)
  case (less j)
  define n1 where "n1 = (if w = 0 then (st ! j)\<lparr>num_wins := num_wins (st ! j) + 1 / 2\<rparr>
             else if w = node_player (st ! j) then (st ! j)\<lparr>num_wins := num_wins (st ! j) + 1\<rparr>
             else st ! j)"
  define n2 where "n2 = n1\<lparr>num_visits := num_visits n1 + 1\<rparr>"
  define st1 where "st1 = st[j := n2]"
  note b = stat_step_bump[OF n1_def n2_def]
  have unf: "backpropagate st (Some j) w = backpropagate st1 (node_parent (st ! j)) w"
    by (subst backpropagate.simps) (simp add: Let_def n1_def n2_def st1_def)
  have len1: "length st1 = length st" by (simp add: st1_def)
  have nth1: "st1 ! k = (if k = j then n2 else st ! k)" if "k < length st" for k
    using that by (simp add: st1_def nth_list_update)
  show ?case
  proof (cases "node_parent (st ! j)")
    case None
    have "backpropagate st (Some j) w = Some st1"
      unfolding unf None by (subst backpropagate.simps) simp
    moreover have "\<forall>k<length st. stat_step (st ! k) (st1 ! k)"
      using b(1) stat_step_refl by (simp add: nth1)
    moreover have "\<forall>k<length st. j < k \<longrightarrow> st1 ! k = st ! k" by (simp add: nth1)
    moreover have "num_visits (st1 ! j) = Suc (num_visits (st ! j))"
      using less.prems(2) b(3) by (simp add: nth1)
    ultimately show ?thesis using len1 by blast
  next
    case (Some q)
    then have qj: "q < j" using less.prems by blast
    have pd: "\<forall>k<length st1. \<forall>q. node_parent (st1 ! k) = Some q \<longrightarrow> q < k"
      using less.prems(1) b(2) by (simp add: len1 nth1)
    have ql: "q < length st1" using qj less.prems(2) by (simp add: len1)
    from less.IH[OF qj pd ql] obtain st' where
      st': "backpropagate st1 (Some q) w = Some st'" "length st' = length st1"
        "\<forall>k<length st1. stat_step (st1 ! k) (st' ! k)"
        "\<forall>k<length st1. q < k \<longrightarrow> st' ! k = st1 ! k" by blast
    have j': "st' ! j = n2" using st'(4) qj less.prems(2) by (simp add: len1 nth1)
    have "\<forall>k<length st. stat_step (st ! k) (st' ! k)"
    proof (intro allI impI)
      fix k assume k: "k < length st"
      show "stat_step (st ! k) (st' ! k)"
      proof (cases "k = j")
        case True
        then show ?thesis using j' b(1) by simp
      next
        case False
        then show ?thesis using st'(3)[rule_format, of k] k by (simp add: len1 nth1)
      qed
    qed
    moreover have "\<forall>k<length st. j < k \<longrightarrow> st' ! k = st ! k"
      using st'(4) qj by (simp add: len1 nth1)
    moreover have "num_visits (st' ! j) = Suc (num_visits (st ! j))"
      unfolding j' using b(3) .
    moreover have "backpropagate st (Some j) w = Some st'" using unf Some st'(1) by simp
    ultimately show ?thesis using st'(2) len1 by (intro exI[of _ st']) simp
  qed
qed

lemma tree_ok_parents:
  "tree_ok st \<Longrightarrow> \<forall>k<length st. \<forall>q. node_parent (st ! k) = Some q \<longrightarrow> q < k"
  unfolding tree_ok_def node_ok_def by blast

lemma node_ok_stat_step:
  assumes ok: "node_ok st i" and i: "i < length st" and len: "length st' = length st"
    and step: "\<forall>k<length st. stat_step (st ! k) (st' ! k)"
  shows "node_ok st' i"
proof -
  have si: "stat_step (st ! i) (st' ! i)" using step i by blast
  have b: "node_board (st' ! i) = node_board (st ! i)" using stat_stepD(1)[OF si] .
  have pl: "node_player (st' ! i) = node_player (st ! i)" using stat_stepD(2)[OF si] .
  have pa: "node_parent (st' ! i) = node_parent (st ! i)" using stat_stepD(3)[OF si] .
  have ch: "childs (st' ! i) = childs (st ! i)" using stat_stepD(5)[OF si] .
  have nm: "next_moves (st' ! i) = next_moves (st ! i)" using stat_stepD(6)[OF si] .
  have w: "0 \<le> num_wins (st' ! i) \<and> num_wins (st' ! i) \<le> of_nat (num_visits (st' ! i))"
    using stat_stepD(8)[OF si] ok unfolding node_ok_def by blast
  have c: "i < c \<and> c < length st' \<and> node_parent (st' ! c) = Some i
          \<and> (\<exists>m\<in>set (valid_moves (node_board (st ! i))). node_move (st' ! c) = Some m)"
    if "c \<in> set (childs (st ! i))" for c
  proof -
    note cc = node_ok_child[OF ok that]
    have sc: "stat_step (st ! c) (st' ! c)" using step cc(2) by blast
    show ?thesis
      using cc unfolding stat_stepD(3)[OF sc] stat_stepD(4)[OF sc] len by blast
  qed
  show ?thesis
    unfolding node_ok_def b pl pa ch nm
    using ok w c unfolding node_ok_def by blast
qed

lemma tree_ok_stat_step:
  assumes "tree_ok st" "length st' = length st" "\<forall>k<length st. stat_step (st ! k) (st' ! k)"
  shows "tree_ok st'"
  unfolding tree_ok_def
proof (intro conjI allI impI)
  show "st' \<noteq> []" using assms(1,2) by (auto simp: tree_ok_def)
next
  fix i assume "i < length st'"
  then have i: "i < length st" using assms(2) by simp
  show "node_ok st' i"
    using node_ok_stat_step[OF tree_ok_node[OF assms(1) i] i assms(2,3)] .
qed

subsection \<open>Expansion\<close>

lemma node_okI:
  assumes "wf_board (node_board (st ! i))"
    and "node_player (st ! i) = 1 \<or> node_player (st ! i) = - 1"
    and "set (next_moves (st ! i)) \<subseteq> set (valid_moves (node_board (st ! i)))"
    and "childs (st ! i) = [] \<longrightarrow> next_moves (st ! i) = valid_moves (node_board (st ! i))"
    and "\<And>c. c \<in> set (childs (st ! i)) \<Longrightarrow>
          i < c \<and> c < length st \<and> node_parent (st ! c) = Some i
          \<and> (\<exists>m\<in>set (valid_moves (node_board (st ! i))). node_move (st ! c) = Some m)"
    and "\<And>q. node_parent (st ! i) = Some q \<Longrightarrow> q < i"
    and "0 \<le> num_wins (st ! i)" and "num_wins (st ! i) \<le> of_nat (num_visits (st ! i))"
  shows "node_ok st i"
  unfolding node_ok_def using assms by blast

lemma node_okD:
  assumes "node_ok st i"
  shows "wf_board (node_board (st ! i))"
    and "node_player (st ! i) = 1 \<or> node_player (st ! i) = - 1"
    and "set (next_moves (st ! i)) \<subseteq> set (valid_moves (node_board (st ! i)))"
    and "childs (st ! i) = [] \<Longrightarrow> next_moves (st ! i) = valid_moves (node_board (st ! i))"
    and "\<And>q. node_parent (st ! i) = Some q \<Longrightarrow> q < i"
    and "0 \<le> num_wins (st ! i)" and "num_wins (st ! i) \<le> of_nat (num_visits (st ! i))"
  using assms unfolding node_ok_def by blast+

lemma expand_result:
  assumes "i < length st" "mv \<in> set (next_moves (st ! i))"
    "play (node_board (st ! i)) mv (- node_player (st ! i)) = Inr nb"
  shows "expand st i mv =
           Inr (st[i := (st ! i)\<lparr>next_moves := remove1 mv (next_moves (st ! i)),
                                 childs := childs (st ! i) @ [length st]\<rparr>]
                  @ [new_node nb (- node_player (st ! i)) (Some i) (Some mv)], length st)"
  using assms by (simp add: expand_def Let_def nth_append list_update_append)

lemma expand_tree_ok:
  assumes ok: "tree_ok st" and i: "i < length st" and mv: "mv \<in> set (next_moves (st ! i))"
    and pl: "play (node_board (st ! i)) mv (- node_player (st ! i)) = Inr nb"
    and ni: "ni = (st ! i)\<lparr>next_moves := remove1 mv (next_moves (st ! i)),
                            childs := childs (st ! i) @ [length st]\<rparr>"
    and ch: "child = new_node nb (- node_player (st ! i)) (Some i) (Some mv)"
    and st': "st' = st[i := ni] @ [child]"
  shows "tree_ok st'"
proof -
  have len: "length st' = Suc (length st)" by (simp add: st')
  have nth_new: "st' ! length st = child" by (simp add: st' nth_append)
  have nth_i: "st' ! i = ni" using i by (simp add: st' nth_append)
  have nth_other: "st' ! k = st ! k" if "k < length st" "k \<noteq> i" for k
    using that by (simp add: st' nth_append)
  have oki: "node_ok st i" using tree_ok_node[OF ok i] .
  have mvv: "mv \<in> set (valid_moves (node_board (st ! i)))" using node_okD(3)[OF oki] mv by blast
  have par: "node_parent (st' ! k) = node_parent (st ! k)" if "k < length st" for k
    using that nth_i nth_other[OF that] ni by (cases "k = i") simp_all
  have mov: "node_move (st' ! k) = node_move (st ! k)" if "k < length st" for k
    using that nth_i nth_other[OF that] ni by (cases "k = i") simp_all
  have old_child: "k < c \<and> c < length st' \<and> node_parent (st' ! c) = Some k
          \<and> (\<exists>m\<in>set (valid_moves (node_board (st ! k))). node_move (st' ! c) = Some m)"
    if k: "k < length st" and c: "c \<in> set (childs (st ! k))" for k c
  proof -
    note cc = node_ok_child[OF tree_ok_node[OF ok k] c]
    show ?thesis using cc par[OF cc(2)] mov[OF cc(2)] len by simp
  qed
  have "node_ok st' k" if k: "k < length st'" for k
  proof -
    consider "k = length st" | "k = i" | "k < length st" "k \<noteq> i" using k len by linarith
    then show ?thesis
    proof cases
      case 1
      have wfn: "wf_board nb" using wf_board_play[OF node_okD(1)[OF oki] pl] .
      have pl': "- node_player (st ! i) = 1 \<or> - node_player (st ! i) = - 1"
        using node_okD(2)[OF oki] by auto
      show ?thesis
        unfolding 1
        by (rule node_okI) (use wfn node_okD(2)[OF oki] i in \<open>auto simp: nth_new ch new_node_def\<close>)
    next
      case 2
      have b: "node_board ni = node_board (st ! i)" "node_player ni = node_player (st ! i)"
        "node_parent ni = node_parent (st ! i)" "num_wins ni = num_wins (st ! i)"
        "num_visits ni = num_visits (st ! i)" "childs ni = childs (st ! i) @ [length st]"
        "next_moves ni = remove1 mv (next_moves (st ! i))"
        by (simp_all add: ni)
      have sub: "set (remove1 mv (next_moves (st ! i))) \<subseteq> set (valid_moves (node_board (st ! i)))"
        using node_okD(3)[OF oki] set_remove1_subset by fast
      have newc: "i < length st \<and> length st < length st' \<and> node_parent (st' ! length st) = Some i
          \<and> (\<exists>m\<in>set (valid_moves (node_board (st ! i))). node_move (st' ! length st) = Some m)"
        using i len mvv by (simp add: nth_new ch new_node_def)
      show ?thesis
        unfolding 2
      proof (rule node_okI)
        fix c assume "c \<in> set (childs (st' ! i))"
        then have "c \<in> set (childs (st ! i)) \<or> c = length st" by (auto simp: nth_i b)
        then show "i < c \<and> c < length st' \<and> node_parent (st' ! c) = Some i
          \<and> (\<exists>m\<in>set (valid_moves (node_board (st' ! i))). node_move (st' ! c) = Some m)"
          using old_child[OF i] newc by (auto simp: nth_i b)
      next
        fix q assume "node_parent (st' ! i) = Some q"
        then show "q < i" using node_okD(5)[OF oki] by (simp add: nth_i b)
      qed (use oki sub in \<open>simp_all add: nth_i b node_okD\<close>)
    next
      case 3
      have okk: "node_ok st k" using tree_ok_node[OF ok 3(1)] .
      show ?thesis
      proof (rule node_okI)
        fix c assume "c \<in> set (childs (st' ! k))"
        then show "k < c \<and> c < length st' \<and> node_parent (st' ! c) = Some k
          \<and> (\<exists>m\<in>set (valid_moves (node_board (st' ! k))). node_move (st' ! c) = Some m)"
          using old_child[OF 3(1)] by (simp add: nth_other[OF 3])
      next
        fix q assume "node_parent (st' ! k) = Some q"
        then show "q < k" using node_okD(5)[OF okk] by (simp add: nth_other[OF 3])
      qed (use okk in \<open>simp_all add: nth_other[OF 3] node_okD\<close>)
    qed
  qed
  then show ?thesis unfolding tree_ok_def by (simp add: st')
qed

subsection \<open>One iteration and the whole loop\<close>

lemma expansion_ok:
  assumes ok: "tree_ok st" and j: "j < length st" and nm: "next_moves (st ! j) \<noteq> []"
  shows "\<exists>st1. expansion st j g = Inr (st1, length st, stl g) \<and> tree_ok st1
           \<and> length st1 = Suc (length st)
           \<and> (\<forall>k<length st. num_visits (st1 ! k) = num_visits (st ! k)
                 \<and> node_board (st1 ! k) = node_board (st ! k)
                 \<and> (k \<noteq> j \<longrightarrow> childs (st1 ! k) = childs (st ! k)))
           \<and> childs (st1 ! j) \<noteq> []"
proof -
  have okj: "node_ok st j" using tree_ok_node[OF ok j] .
  from random_choice_member[OF nm] obtain mv where
    c: "random_choice (next_moves (st ! j)) g = Inr (mv, stl g)" "mv \<in> set (next_moves (st ! j))"
    by blast
  have "mv \<in> set (valid_moves (node_board (st ! j)))" using node_okD(3)[OF okj] c(2) by blast
  from valid_move_play[OF node_okD(1)[OF okj] this] obtain nb where
    pl: "play (node_board (st ! j)) mv (- node_player (st ! j)) = Inr nb" by blast
  define ni where "ni = (st ! j)\<lparr>next_moves := remove1 mv (next_moves (st ! j)),
                            childs := childs (st ! j) @ [length st]\<rparr>"
  define child where "child = new_node nb (- node_player (st ! j)) (Some j) (Some mv)"
  define st1 where "st1 = st[j := ni] @ [child]"
  have ex: "expand st j mv = Inr (st1, length st)"
    using expand_result[OF j c(2) pl] by (simp add: st1_def ni_def child_def)
  have t1: "tree_ok st1" using expand_tree_ok[OF ok j c(2) pl ni_def child_def st1_def] .
  have nth: "st1 ! k = (if k = j then ni else st ! k)" if "k < length st" for k
    using that by (simp add: st1_def nth_append nth_list_update)
  have "\<forall>k<length st. num_visits (st1 ! k) = num_visits (st ! k)
                 \<and> node_board (st1 ! k) = node_board (st ! k)
                 \<and> (k \<noteq> j \<longrightarrow> childs (st1 ! k) = childs (st ! k))"
    by (simp add: nth ni_def)
  moreover have "childs (st1 ! j) \<noteq> []" using j by (simp add: nth ni_def)
  moreover have "length st1 = Suc (length st)" by (simp add: st1_def)
  moreover have "expansion st j g = Inr (st1, length st, stl g)"
    using nm c(1) ex by (simp add: expansion_def)
  ultimately show ?thesis using t1 by blast
qed

lemma mcts_iteration_ok:
  assumes ok: "tree_ok st" and vis: "visited st"
  shows "\<exists>st' g'. mcts_iteration ucb st g = Some (Inr (st', g')) \<and> tree_ok st' \<and> visited st'
           \<and> node_board (st' ! 0) = node_board (st ! 0)
           \<and> (valid_moves (node_board (st ! 0)) \<noteq> [] \<longrightarrow> childs (st' ! 0) \<noteq> [])"
proof -
  have l0: "0 < length st" using ok by (simp add: tree_ok_def)
  from descend_returns[OF ok vis l0, of ucb] obtain j where
    d: "descend ucb st 0 = Some (Inr j)" and j: "j < length st"
    and stop: "childs (st ! j) = [] \<or> next_moves (st ! j) \<noteq> []"
    and j0: "j \<noteq> 0 \<longrightarrow> childs (st ! 0) \<noteq> []" by blast
  show ?thesis
  proof (cases "next_moves (st ! j) = []")
    case True
    have e: "expansion st j g = Inr (st, j, g)" using True by (simp add: expansion_def)
    from rollout_returns[OF tree_ok_node[OF ok j], of g] obtain w g' where
      r: "rollout st j g = Some (Inr (w, g'))" by blast
    from backpropagate_returns[OF tree_ok_parents[OF ok] j, of w] obtain st2 where
      bp: "backpropagate st (Some j) w = Some st2" and len2: "length st2 = length st"
      and step: "\<forall>k<length st. stat_step (st ! k) (st2 ! k)" by blast
    have t2: "tree_ok st2" using tree_ok_stat_step[OF ok len2 step] .
    have v2: "visited st2"
      unfolding visited_def
    proof (intro allI impI)
      fix k assume k: "k < length st2" "0 < k"
      then have "1 \<le> num_visits (st ! k)" using vis len2 by (simp add: visited_def)
      moreover have "num_visits (st ! k) \<le> num_visits (st2 ! k)"
        using stat_stepD(7) step k(1) len2 by simp
      ultimately show "1 \<le> num_visits (st2 ! k)" by linarith
    qed
    have s0: "stat_step (st ! 0) (st2 ! 0)" using step l0 by blast
    have b0: "node_board (st2 ! 0) = node_board (st ! 0)" using stat_stepD(1)[OF s0] .
    have c0: "childs (st2 ! 0) = childs (st ! 0)" using stat_stepD(5)[OF s0] .
    have "childs (st ! j) = []" using stop True by blast
    then have "valid_moves (node_board (st ! j)) = []"
      using node_okD(4)[OF tree_ok_node[OF ok j]] True by simp
    then have grow: "valid_moves (node_board (st ! 0)) \<noteq> [] \<longrightarrow> childs (st2 ! 0) \<noteq> []"
      using j0 c0 by (cases "j = 0") auto
    have "mcts_iteration ucb st g = Some (Inr (st2, g'))"
      using d e r bp by (simp add: mcts_iteration_def)
    then show ?thesis using t2 v2 b0 grow by blast
  next
    case False
    from expansion_ok[OF ok j False, of g] obtain st1 where
      e: "expansion st j g = Inr (st1, length st, stl g)" and t1: "tree_ok st1"
      and len1: "length st1 = Suc (length st)"
      and fr: "\<forall>k<length st. num_visits (st1 ! k) = num_visits (st ! k)
                 \<and> node_board (st1 ! k) = node_board (st ! k)
                 \<and> (k \<noteq> j \<longrightarrow> childs (st1 ! k) = childs (st ! k))"
      and cj: "childs (st1 ! j) \<noteq> []" by blast
    have n1: "length st < length st1" using len1 by simp
    from rollout_returns[OF tree_ok_node[OF t1 n1], of "stl g"] obtain w g' where
      r: "rollout st1 (length st) (stl g) = Some (Inr (w, g'))" by blast
    from backpropagate_returns[OF tree_ok_parents[OF t1] n1, of w] obtain st2 where
      bp: "backpropagate st1 (Some (length st)) w = Some st2" and len2: "length st2 = length st1"
      and step: "\<forall>k<length st1. stat_step (st1 ! k) (st2 ! k)"
      and vn: "num_visits (st2 ! length st) = Suc (num_visits (st1 ! length st))" by blast
    have t2: "tree_ok st2" using tree_ok_stat_step[OF t1 len2 step] .
    have v2: "visited st2"
      unfolding visited_def
    proof (intro allI impI)
      fix k assume k: "k < length st2" "0 < k"
      show "1 \<le> num_visits (st2 ! k)"
      proof (cases "k = length st")
        case True
        then show ?thesis using vn by simp
      next
        case nk: False
        then have kl: "k < length st" using k(1) len2 len1 by simp
        then have "1 \<le> num_visits (st ! k)" using vis k(2) by (simp add: visited_def)
        moreover have "num_visits (st1 ! k) = num_visits (st ! k)" using fr kl by blast
        moreover have "num_visits (st1 ! k) \<le> num_visits (st2 ! k)"
          using stat_stepD(7) step k(1) len2 by simp
        ultimately show ?thesis by linarith
      qed
    qed
    have "0 < length st1" using n1 by linarith
    then have s0: "stat_step (st1 ! 0) (st2 ! 0)" using step by blast
    have b0: "node_board (st2 ! 0) = node_board (st ! 0)"
      using stat_stepD(1)[OF s0] fr l0 by simp
    have c0: "childs (st2 ! 0) = childs (st1 ! 0)" using stat_stepD(5)[OF s0] .
    have "childs (st1 ! 0) \<noteq> []"
    proof (cases "j = 0")
      case True
      then show ?thesis using cj by simp
    next
      case nj: False
      then have "childs (st1 ! 0) = childs (st ! 0)" using fr l0 by metis
      then show ?thesis using j0 nj by simp
    qed
    then have grow: "childs (st2 ! 0) \<noteq> []" using c0 by simp
    have "mcts_iteration ucb st g = Some (Inr (st2, g'))"
      using d e r bp by (simp add: mcts_iteration_def)
    then show ?thesis using t2 v2 b0 grow by blast
  qed
qed

lemma mcts_loop_ok:
  assumes "tree_ok st" "visited st"
  shows "\<exists>st' g'. mcts_loop ucb n st g = Some (Inr (st', g')) \<and> tree_ok st' \<and> visited st'
           \<and> node_board (st' ! 0) = node_board (st ! 0)
           \<and> (1 \<le> n \<longrightarrow> valid_moves (node_board (st ! 0)) \<noteq> [] \<longrightarrow> childs (st' ! 0) \<noteq> [])"
  using assms
proof (induction n arbitrary: st g)
  case 0
  then show ?case by simp
next
  case (Suc n)
  from mcts_iteration_ok[OF Suc.prems, of ucb g] obtain st1 g1 where
    it: "mcts_iteration ucb st g = Some (Inr (st1, g1))" and t1: "tree_ok st1" and v1: "visited st1"
    and b1: "node_board (st1 ! 0) = node_board (st ! 0)"
    and c1: "valid_moves (node_board (st ! 0)) \<noteq> [] \<longrightarrow> childs (st1 ! 0) \<noteq> []" by blast
  from Suc.IH[OF t1 v1, of g1] obtain st' g' where
    lp: "mcts_loop ucb n st1 g1 = Some (Inr (st', g'))" and t': "tree_ok st'" and v': "visited st'"
    and b': "node_board (st' ! 0) = node_board (st1 ! 0)"
    and c': "1 \<le> n \<longrightarrow> valid_moves (node_board (st1 ! 0)) \<noteq> [] \<longrightarrow> childs (st' ! 0) \<noteq> []"
    by blast
  have "valid_moves (node_board (st ! 0)) \<noteq> [] \<longrightarrow> childs (st' ! 0) \<noteq> []"
  proof (cases n)
    case 0
    then have "st' = st1" using lp by simp
    then show ?thesis using c1 by simp
  next
    case (Suc m)
    then show ?thesis using c' b1 by simp
  qed
  moreover have "mcts_loop ucb (Suc n) st g = Some (Inr (st', g'))" using it lp by simp
  ultimately show ?case using t' v' b' b1 by (intro exI[of _ st'] exI[of _ g']) simp
qed

lemma root_ok:
  assumes "wf_board b" "player = 1 \<or> player = - 1"
  shows "tree_ok [new_node b (- player) None None]" "visited [new_node b (- player) None None]"
proof -
  have "node_ok [new_node b (- player) None None] 0"
    by (rule node_okI) (use assms in \<open>auto simp: new_node_def\<close>)
  then show "tree_ok [new_node b (- player) None None]" by (simp add: tree_ok_def)
  show "visited [new_node b (- player) None None]" by (simp add: visited_def)
qed

text \<open>
  Claim C8. For every board with at least one legal move, for players \<open>1\<close> and \<open>-1\<close> and
  every iteration budget of at least 1, \<open>MCTS\<close> returns without raising, and the move it
  returns is a legal move of the board it was given, whatever the random draws and the
  values of \<open>UCB1\<close>.
\<close>

theorem MCTS_returns_legal_move:
  assumes "wf_board b" and "player = 1 \<or> player = - 1" and "valid_moves b \<noteq> []"
    and "1 \<le> num_iterations"
  shows "\<exists>m g'. MCTS ucb b player num_iterations g = Some (Inr (Some m, g'))
           \<and> m \<in> set (valid_moves b)"
proof -
  let ?root = "[new_node b (- player) None None]"
  have rb: "node_board (?root ! 0) = b" by (simp add: new_node_def)
  from mcts_loop_ok[OF root_ok[OF assms(1,2)], of ucb num_iterations g] obtain st g' where
    lp: "mcts_loop ucb num_iterations ?root g = Some (Inr (st, g'))"
    and t: "tree_ok st" and v: "visited st" and b: "node_board (st ! 0) = b"
    and c: "childs (st ! 0) \<noteq> []"
    using assms(3,4) unfolding rb by blast
  have l0: "0 < length st" using t by (simp add: tree_ok_def)
  have "\<forall>c\<in>set (childs (st ! 0)). \<exists>r. win_rate st c = Inr r"
    using child_scores(2)[OF t v l0] by blast
  from max_by_member[OF c this] obtain best where
    best: "best \<in> set (childs (st ! 0))" "max_by (win_rate st) (childs (st ! 0)) = Inr best"
    by blast
  from node_ok_child(4)[OF tree_ok_node[OF t l0] best(1)] obtain m where
    m: "m \<in> set (valid_moves b)" "node_move (st ! best) = Some m" unfolding b by blast
  have "MCTS ucb b player num_iterations g = Some (Inr (Some m, g'))"
    using lp best(2) m(2) by (simp add: MCTS_def)
  then show ?thesis using m(1) by blast
qed

theorem MCTS_returns_legal_move_witness:
  "wf_board three_board \<and> valid_moves three_board \<noteq> []
   \<and> (\<exists>m g'. MCTS (\<lambda>w n m. 0) three_board 1 1 (sconst 0) = Some (Inr (Some m, g'))
          \<and> m \<in> set (valid_moves three_board))"
proof -
  have w: "wf_board three_board" by code_simp
  have v: "valid_moves three_board \<noteq> []" by code_simp
  show ?thesis
    using MCTS_returns_legal_move[OF w _ v, of 1 1 "\<lambda>w n m. 0" "sconst 0"] w v by simp
qed

text \<open>
  Claim C10. From the root node that \<open>MCTS\<close> creates, every number \<open>n\<close> of iterations
  completes, and afterwards every node of the tree has \<open>0 <= num_wins <= num_visits\<close> and
  every child has \<open>num_visits >= 1\<close>, so that neither \<open>UCB1\<close> nor the final
  \<open>num_wins / num_visits\<close> divides by zero on a child.
\<close>

theorem mcts_statistics_invariant:
  assumes "wf_board b" and "player = 1 \<or> player = - 1"
  shows "\<exists>st g'. mcts_loop ucb n [new_node b (- player) None None] g = Some (Inr (st, g'))
           \<and> st \<noteq> []
           \<and> (\<forall>i<length st.
                 0 \<le> num_wins (st ! i) \<and> num_wins (st ! i) \<le> of_nat (num_visits (st ! i))
               \<and> (\<forall>c\<in>set (childs (st ! i)).
                     c < length st \<and> 1 \<le> num_visits (st ! c)
                   \<and> (\<exists>k. UCB1 ucb st c = Inr k) \<and> (\<exists>r. win_rate st c = Inr r)))"
proof -
  let ?root = "[new_node b (- player) None None]"
  from mcts_loop_ok[OF root_ok[OF assms], of ucb n g] obtain st g' where
    lp: "mcts_loop ucb n ?root g = Some (Inr (st, g'))"
    and t: "tree_ok st" and v: "visited st" by blast
  have ne: "st \<noteq> []" using t by (simp add: tree_ok_def)
  have "0 \<le> num_wins (st ! i) \<and> num_wins (st ! i) \<le> of_nat (num_visits (st ! i))
          \<and> (\<forall>c\<in>set (childs (st ! i)).
                c < length st \<and> 1 \<le> num_visits (st ! c)
              \<and> (\<exists>k. UCB1 ucb st c = Inr k) \<and> (\<exists>r. win_rate st c = Inr r))"
    if i: "i < length st" for i
  proof -
    have ok: "node_ok st i" using tree_ok_node[OF t i] .
    have "c < length st \<and> 1 \<le> num_visits (st ! c)
              \<and> (\<exists>k. UCB1 ucb st c = Inr k) \<and> (\<exists>r. win_rate st c = Inr r)"
      if c: "c \<in> set (childs (st ! i))" for c
    proof -
      note cc = node_ok_child[OF ok c]
      have "1 \<le> num_visits (st ! c)" using v cc(1,2) by (simp add: visited_def)
      then show ?thesis
        using cc(2) child_scores(1)[OF t v i c, of ucb] child_scores(2)[OF t v i c] by blast
    qed
    then show ?thesis using node_okD(6,7)[OF ok] by blast
  qed
  then show ?thesis using lp ne by blast
qed

theorem mcts_statistics_invariant_witness:
  "wf_board three_board
   \<and> (\<exists>st g'. mcts_loop (\<lambda>w n m. 0) 2 [new_node three_board (- 1) None None] (sconst 0)
                 = Some (Inr (st, g'))
          \<and> 0 \<le> num_wins (st ! 0) \<and> num_wins (st ! 0) \<le> of_nat (num_visits (st ! 0)))"
proof -
  have w: "wf_board three_board" by code_simp
  from mcts_statistics_invariant[OF w, of 1 "\<lambda>w n m. 0" 2 "sconst 0"] obtain st g' where
    "mcts_loop (\<lambda>w n m. 0) 2 [new_node three_board (- 1) None None] (sconst 0) = Some (Inr (st, g'))"
    "st \<noteq> []"
    "\<forall>i<length st. 0 \<le> num_wins (st ! i) \<and> num_wins (st ! i) \<le> of_nat (num_visits (st ! i))"
    by auto
  then show ?thesis using w by (intro conjI exI[of _ st] exI[of _ g']) auto
qed

end
